theory Spec2Isabelle
  imports Main "HOL-Library.AList"
begin

section \<open>Characters and the string operations of the detector\<close>

text \<open>
  A Python \<open>str\<close> is modelled by \<open>string\<close>, a character by its code point 0 to 255.
  The classes below are those of Python 3 on these code points: \<open>str.isspace\<close>,
  \<open>str.strip\<close>, \<open>str.split\<close> and the pattern class \<open>\s\<close> hold of 9 to 13, 28 to 32, 133
  and 160; \<open>\d\<close> holds of the ten digits; \<open>\w\<close> holds of the ASCII letters and digits, the
  underscore, and the letters and numeric characters of 170 to 255.
\<close>

definition in_range :: "char \<Rightarrow> char \<Rightarrow> char \<Rightarrow> bool" where
  "in_range lo hi c = ((of_char lo :: nat) \<le> of_char c \<and> (of_char c :: nat) \<le> of_char hi)"

definition code_in :: "nat \<Rightarrow> nat \<Rightarrow> char \<Rightarrow> bool" where
  "code_in lo hi c = (lo \<le> of_char c \<and> (of_char c :: nat) \<le> hi)"

definition is_space :: "char \<Rightarrow> bool" where
  "is_space c = (code_in 9 13 c \<or> code_in 28 32 c \<or> code_in 133 133 c \<or> code_in 160 160 c)"

definition is_digit :: "char \<Rightarrow> bool" where
  "is_digit c = in_range CHR ''0'' CHR ''9'' c"

definition is_upper :: "char \<Rightarrow> bool" where
  "is_upper c = in_range CHR ''A'' CHR ''Z'' c"

definition is_lower :: "char \<Rightarrow> bool" where
  "is_lower c = in_range CHR ''a'' CHR ''z'' c"

text \<open>The characters above 127 that \<open>\w\<close> holds of.\<close>

definition is_latin1_word :: "char \<Rightarrow> bool" where
  "is_latin1_word c =
     (code_in 170 170 c \<or> code_in 178 179 c \<or> code_in 181 181 c \<or> code_in 185 186 c
      \<or> code_in 188 190 c \<or> code_in 192 214 c \<or> code_in 216 246 c \<or> code_in 248 255 c)"

definition is_word :: "char \<Rightarrow> bool" where
  "is_word c = (is_upper c \<or> is_lower c \<or> is_digit c \<or> c = CHR ''_'' \<or> is_latin1_word c)"

text \<open>\<open>s.strip()\<close>: leading and trailing whitespace removed.\<close>

definition strip :: "string \<Rightarrow> string" where
  "strip s = rev (dropWhile is_space (rev (dropWhile is_space s)))"

text \<open>
  \<open>s.split()\<close>: the maximal runs of non-whitespace characters. \<open>split_ws cur s\<close> reads
  \<open>s\<close> with \<open>cur\<close> the token read so far.
\<close>

fun split_ws :: "string \<Rightarrow> string \<Rightarrow> string list" where
  "split_ws cur [] = (if cur = [] then [] else [cur])"
| "split_ws cur (c # cs) =
     (if is_space c then (if cur = [] then split_ws [] cs else cur # split_ws [] cs)
      else split_ws (cur @ [c]) cs)"

definition split_words :: "string \<Rightarrow> string list" where
  "split_words s = split_ws [] s"

text \<open>\<open>s.split(sep)\<close> for a one-character separator: never empty, one more part than separators.\<close>

fun split_on :: "char \<Rightarrow> string \<Rightarrow> string \<Rightarrow> string list" where
  "split_on sep cur [] = [cur]"
| "split_on sep cur (c # cs) =
     (if c = sep then cur # split_on sep [] cs else split_on sep (cur @ [c]) cs)"

text \<open>\<open>s.split(sep, 1)\<close>: at most one cut, at the first separator.\<close>

definition split_once :: "char \<Rightarrow> string \<Rightarrow> string list" where
  "split_once sep s =
     (case dropWhile (\<lambda>c. c \<noteq> sep) s of
        [] \<Rightarrow> [s]
      | _ # rest \<Rightarrow> [takeWhile (\<lambda>c. c \<noteq> sep) s, rest])"

text \<open>\<open>' '.join(parts)\<close>.\<close>

fun join :: "string list \<Rightarrow> string" where
  "join [] = []"
| "join [p] = p"
| "join (p # q # ps) = p @ CHR '' '' # join (q # ps)"

text \<open>\<open>s[-n:]\<close> for \<open>n > 0\<close>: the last \<open>n\<close> characters, the whole string when it is shorter.\<close>

definition last_n :: "nat \<Rightarrow> string \<Rightarrow> string" where
  "last_n n s = drop (length s - n) s"

section \<open>Regular expressions\<close>

text \<open>
  The patterns of the detector are sequences of two kinds of item: the assertion \<open>\b\<close>, and a
  character class repeated between \<open>lo\<close> and \<open>hi\<close> times (\<open>None\<close>: no upper bound). The detector
  only asks whether \<open>search\<close> finds a match, so the matcher computes every position where a
  match starting at \<open>i\<close> can end.
\<close>

datatype rx = WordB | Rep "char \<Rightarrow> bool" nat "nat option"

definition word_at :: "string \<Rightarrow> nat \<Rightarrow> bool" where
  "word_at s i = (i < length s \<and> is_word (s ! i))"

definition boundary :: "string \<Rightarrow> nat \<Rightarrow> bool" where
  "boundary s i = ((0 < i \<and> word_at s (i - 1)) \<noteq> word_at s i)"

fun step :: "rx \<Rightarrow> string \<Rightarrow> nat \<Rightarrow> nat list" where
  "step WordB s i = (if boundary s i then [i] else [])"
| "step (Rep cls lo hi) s i =
     (let k = length (takeWhile cls (drop i s));
          top = (case hi of None \<Rightarrow> k | Some h \<Rightarrow> min h k)
      in map (\<lambda>t. i + t) [lo..<Suc top])"

fun ends :: "rx list \<Rightarrow> string \<Rightarrow> nat \<Rightarrow> nat list" where
  "ends [] s i = [i]"
| "ends (r # rs) s i = concat (map (ends rs s) (step r s i))"

definition search :: "rx list \<Rightarrow> string \<Rightarrow> bool" where
  "search rs s = list_ex (\<lambda>i. ends rs s i \<noteq> []) [0..<Suc (length s)]"

abbreviation rx_one :: "(char \<Rightarrow> bool) \<Rightarrow> rx" where
  "rx_one cls \<equiv> Rep cls 1 (Some 1)"

abbreviation rx_times :: "(char \<Rightarrow> bool) \<Rightarrow> nat \<Rightarrow> rx" where
  "rx_times cls n \<equiv> Rep cls n (Some n)"

abbreviation rx_opt :: "(char \<Rightarrow> bool) \<Rightarrow> rx" where
  "rx_opt cls \<equiv> Rep cls 0 (Some 1)"

abbreviation rx_plus :: "(char \<Rightarrow> bool) \<Rightarrow> rx" where
  "rx_plus cls \<equiv> Rep cls 1 None"

abbreviation rx_at_least :: "(char \<Rightarrow> bool) \<Rightarrow> nat \<Rightarrow> rx" where
  "rx_at_least cls n \<equiv> Rep cls n None"

text \<open>\<open>PHONE_REGEX = \b\d{10}\b\<close>\<close>

definition PHONE_REGEX :: "rx list" where
  "PHONE_REGEX = [WordB, rx_times is_digit 10, WordB]"

text \<open>\<open>AADHAR_REGEX = \b\d{4}\s?\d{4}\s?\d{4}\b\<close>\<close>

definition AADHAR_REGEX :: "rx list" where
  "AADHAR_REGEX =
     [WordB, rx_times is_digit 4, rx_opt is_space, rx_times is_digit 4, rx_opt is_space, rx_times is_digit 4,
      WordB]"

text \<open>
  \<open>PASSPORT_REGEX = \b[A-PR-WYa-pr-wy][1-9]\d\s?\d{4}[1-9]\b\<close>, compiled with IGNORECASE,
  which adds nothing on the code points 0 to 255: the letter class already holds both cases,
  and no character above 127 has one of these letters as its other case.
\<close>

definition passport_letter :: "char \<Rightarrow> bool" where
  "passport_letter c =
     (in_range CHR ''A'' CHR ''P'' c \<or> in_range CHR ''R'' CHR ''W'' c \<or> c = CHR ''Y''
      \<or> in_range CHR ''a'' CHR ''p'' c \<or> in_range CHR ''r'' CHR ''w'' c \<or> c = CHR ''y'')"

definition digit19 :: "char \<Rightarrow> bool" where
  "digit19 c = in_range CHR ''1'' CHR ''9'' c"

definition PASSPORT_REGEX :: "rx list" where
  "PASSPORT_REGEX =
     [WordB, rx_one passport_letter, rx_one digit19, rx_one is_digit, rx_opt is_space, rx_times is_digit 4,
      rx_one digit19, WordB]"

text \<open>\<open>UPI_REGEX = [\w\.\-]+@\w+\<close>\<close>

definition upi_local :: "char \<Rightarrow> bool" where
  "upi_local c = (is_word c \<or> c = CHR ''.'' \<or> c = CHR ''-'')"

definition is_at :: "char \<Rightarrow> bool" where
  "is_at c = (c = CHR ''@'')"

definition UPI_REGEX :: "rx list" where
  "UPI_REGEX = [rx_plus upi_local, rx_one is_at, rx_plus is_word]"

text \<open>\<open>EMAIL_REGEX = \b[A-Za-z0-9._%+-]+@[A-Za-z0-9.-]+\.[A-Z|a-z]{2,}\b\<close>\<close>

definition email_local :: "char \<Rightarrow> bool" where
  "email_local c =
     (is_upper c \<or> is_lower c \<or> is_digit c \<or> c = CHR ''.'' \<or> c = CHR ''_'' \<or> c = CHR ''%''
      \<or> c = CHR ''+'' \<or> c = CHR ''-'')"

definition email_domain :: "char \<Rightarrow> bool" where
  "email_domain c = (is_upper c \<or> is_lower c \<or> is_digit c \<or> c = CHR ''.'' \<or> c = CHR ''-'')"

definition is_dot :: "char \<Rightarrow> bool" where
  "is_dot c = (c = CHR ''.'')"

definition email_tld :: "char \<Rightarrow> bool" where
  "email_tld c = (is_upper c \<or> c = CHR ''|'' \<or> is_lower c)"

definition EMAIL_REGEX :: "rx list" where
  "EMAIL_REGEX =
     [WordB, rx_plus email_local, rx_one is_at, rx_plus email_domain, rx_one is_dot, rx_at_least email_tld 2,
      WordB]"

section \<open>Redaction functions\<close>

datatype error = IndexError | KeyError | ValueError

definition redact_phone :: "string \<Rightarrow> string" where
  "redact_phone phone_str = take 2 phone_str @ ''XXXXXX'' @ last_n 2 phone_str"

definition redact_aadhar :: "string \<Rightarrow> string" where
  "redact_aadhar aadhar_str =
     ''XXXXXXXX'' @ last_n 4 (filter (\<lambda>c. c \<noteq> CHR '' '') aadhar_str)"

text \<open>\<open>passport_str[0]\<close> and \<open>passport_str[-1]\<close> raise IndexError on the empty string.\<close>

definition redact_passport :: "string \<Rightarrow> error + string" where
  "redact_passport passport_str =
     (case passport_str of
        [] \<Rightarrow> Inl IndexError
      | c # _ \<Rightarrow> Inr (c # ''XXXXXX'' @ [last passport_str]))"

text \<open>The comprehension keeps the parts of positive length, where \<open>p[0]\<close> exists.\<close>

definition redact_part :: "string \<Rightarrow> string" where
  "redact_part p = (case p of [] \<Rightarrow> [] | c # cs \<Rightarrow> c # replicate (length cs) CHR ''X'')"

definition redact_name :: "string \<Rightarrow> string" where
  "redact_name name = join (map redact_part (filter (\<lambda>p. 0 < length p) (split_words name)))"

text \<open>
  Unpacking \<open>email.split('@', 1)\<close> into two names raises ValueError when there is one part
  only; the function catches it and returns the sentinel.
\<close>

definition redact_email :: "string \<Rightarrow> string" where
  "redact_email email =
     (case split_once CHR ''@'' email of
        [local_part, domain] \<Rightarrow>
          (if 2 < length local_part
           then [hd local_part] @ ''XXX'' @ [last local_part]
           else replicate (length local_part) CHR ''X'') @ ''@'' @ domain
      | _ \<Rightarrow> ''[REDACTED_EMAIL]'')"

section \<open>The record evaluator\<close>

text \<open>
  A decoded JSON value; the evaluator looks inside strings only, so a number is kept as an
  integer. A record is a Python \<open>dict\<close>: its items in insertion order, keys distinct.
\<close>

datatype jvalue = JStr string | JNum int | JBool bool | JNull

type_synonym dict = "(string \<times> jvalue) list"

text \<open>
  The variables of \<open>process_record\<close>, together with the store of dict objects. A variable
  that names a dict holds the address of the object, so that \<open>data\<close> and \<open>redacted_data\<close>
  could name one object; \<open>unused\<close> is the first address with no object yet. The set
  \<open>pii_fields_to_redact\<close> is kept as a list without repetitions, in the order of the \<open>add\<close>
  calls.
\<close>

record state =
  objects :: "nat \<Rightarrow> dict"
  unused :: nat
  data :: nat
  redacted_data :: nat
  is_pii_found :: bool
  combinatorial_keys :: "string set"
  pii_fields_to_redact :: "string list"

text \<open>The dict that \<open>redacted_data\<close> names.\<close>

abbreviation the_copy :: "state \<Rightarrow> dict" where
  "the_copy st \<equiv> objects st (redacted_data st)"

text \<open>\<open>redacted_data[key] = v\<close>: a write to the object that \<open>redacted_data\<close> names.\<close>

definition set_item :: "string \<Rightarrow> string \<Rightarrow> state \<Rightarrow> state" where
  "set_item key v st =
     st\<lparr>objects := (objects st)(redacted_data st := AList.update key (JStr v) (the_copy st))\<rparr>"

definition found :: "state \<Rightarrow> state" where
  "found st = st\<lparr>is_pii_found := True\<rparr>"

definition add_category :: "string \<Rightarrow> state \<Rightarrow> state" where
  "add_category c st = st\<lparr>combinatorial_keys := insert c (combinatorial_keys st)\<rparr>"

definition add_field :: "string \<Rightarrow> state \<Rightarrow> state" where
  "add_field k st =
     (if k \<in> set (pii_fields_to_redact st) then st
      else st\<lparr>pii_fields_to_redact := pii_fields_to_redact st @ [k]\<rparr>)"

text \<open>\<open>parts[1]\<close>: IndexError when there is no second part.\<close>

definition second :: "string list \<Rightarrow> error + string" where
  "second parts = (case parts of _ # p # _ \<Rightarrow> Inr p | _ \<Rightarrow> Inl IndexError)"

text \<open>Step 1, the body of the loop over \<open>data.items()\<close>.\<close>

definition scan_field :: "string \<Rightarrow> jvalue \<Rightarrow> state \<Rightarrow> error + state" where
  "scan_field key val st =
     (case val of
        JStr v \<Rightarrow>
          if strip v = [] then Inr st
          else if search PHONE_REGEX v \<and> key \<in> set [''phone'', ''contact''] then
            Inr (set_item key (redact_phone v) (found st))
          else if search AADHAR_REGEX v \<and> key \<in> set [''aadhar'', ''address_proof''] then
            Inr (set_item key (redact_aadhar v) (found st))
          else if search PASSPORT_REGEX v \<and> key \<in> set [''passport''] then
            (case redact_passport v of
               Inl e \<Rightarrow> Inl e
             | Inr r \<Rightarrow> Inr (set_item key r (found st)))
          else if search UPI_REGEX v \<and> key \<in> set [''upi_id''] then
            (case second (split_on CHR ''@'' [] v) of
               Inl e \<Rightarrow> Inl e
             | Inr d \<Rightarrow>
                 if length (split_on CHR ''.'' [] d) = 1
                 then Inr (set_item key ''[REDACTED_UPI]'' (found st))
                 else Inr st)
          else if key = ''name'' \<and> 1 < length (split_words (strip v)) then
            Inr (add_category ''name'' st)
          else if search EMAIL_REGEX v \<and> key = ''email'' then
            Inr (add_category ''email'' st)
          else if key = ''address'' \<and> 10 < length (strip v) then
            Inr (add_category ''address'' st)
          else if key \<in> set [''ip_address'', ''device_id''] then
            Inr (add_category ''device_context'' st)
          else Inr st
      | _ \<Rightarrow> Inr st)"

fun scan_fields :: "dict \<Rightarrow> state \<Rightarrow> error + state" where
  "scan_fields [] st = Inr st"
| "scan_fields ((key, val) # items) st =
     (case scan_field key val st of
        Inl e \<Rightarrow> Inl e
      | Inr st' \<Rightarrow> scan_fields items st')"

text \<open>Step 2, the combinatorial rule.\<close>

definition evaluate_combinatorial :: "state \<Rightarrow> state" where
  "evaluate_combinatorial st =
     (if 2 \<le> card (combinatorial_keys st) then
        (let st1 = found st;
             st2 = (if ''name'' \<in> combinatorial_keys st1 then add_field ''name'' st1 else st1);
             st3 = (if ''email'' \<in> combinatorial_keys st2 then add_field ''email'' st2 else st2);
             st4 = (if ''address'' \<in> combinatorial_keys st3 then add_field ''address'' st3
                    else st3)
         in if ''device_context'' \<in> combinatorial_keys st4
            then add_field ''device_id'' (add_field ''ip_address'' st4)
            else st4)
      else st)"

text \<open>
  Step 3, the body of the loop over \<open>pii_fields_to_redact\<close>: a key that is absent, or whose value
  is not a string, is passed over.
\<close>

definition redact_field :: "string \<Rightarrow> state \<Rightarrow> state" where
  "redact_field key st =
     (case map_of (the_copy st) key of
        Some (JStr v) \<Rightarrow>
          if key = ''name'' then set_item key (redact_name v) st
          else if key = ''email'' then set_item key (redact_email v) st
          else if key = ''address'' then set_item key ''[REDACTED_ADDRESS]'' st
          else set_item key ''[REDACTED_IDENTIFIER]'' st
      | _ \<Rightarrow> st)"

definition redact_fields :: "state \<Rightarrow> state" where
  "redact_fields st = fold redact_field (pii_fields_to_redact st) st"

text \<open>
  The state after the first four statements, for a call with the argument at address \<open>r\<close>:
  \<open>data.copy()\<close> makes a new object, at the first unused address, with the items of the
  argument.
\<close>

definition enter :: "(nat \<Rightarrow> dict) \<Rightarrow> nat \<Rightarrow> nat \<Rightarrow> state" where
  "enter objs n r =
     \<lparr>objects = objs(n := objs r), unused = Suc n, data = r, redacted_data = n,
      is_pii_found = False, combinatorial_keys = {}, pii_fields_to_redact = []\<rparr>"

text \<open>The three steps, to the state at the \<open>return\<close>.\<close>

definition call :: "(nat \<Rightarrow> dict) \<Rightarrow> nat \<Rightarrow> nat \<Rightarrow> error + state" where
  "call objs n r =
     (case scan_fields (objects (enter objs n r) (data (enter objs n r))) (enter objs n r) of
        Inl e \<Rightarrow> Inl e
      | Inr st \<Rightarrow> Inr (redact_fields (evaluate_combinatorial st)))"

text \<open>A call on a record \<open>d\<close>: the store holds \<open>d\<close> alone, at address 0.\<close>

definition initial :: "dict \<Rightarrow> state" where
  "initial d = enter ((\<lambda>_. [])(0 := d)) 1 0"

definition run :: "dict \<Rightarrow> error + state" where
  "run d = call ((\<lambda>_. [])(0 := d)) 1 0"

definition process_record :: "dict \<Rightarrow> error + dict \<times> bool" where
  "process_record d =
     (case run d of
        Inl e \<Rightarrow> Inl e
      | Inr st \<Rightarrow> Inr (the_copy st, is_pii_found st))"

text \<open>
  What a statement that writes only through \<open>redacted_data\<close> leaves alone: the addresses held
  by the two variables, the first unused address, and every object but the one that
  \<open>redacted_data\<close> names.
\<close>

definition writes_copy_only :: "state \<Rightarrow> state \<Rightarrow> bool" where
  "writes_copy_only st st' =
     (redacted_data st' = redacted_data st \<and> data st' = data st \<and> unused st' = unused st
      \<and> (\<forall>a. a \<noteq> redacted_data st \<longrightarrow> objects st' a = objects st a))"

section \<open>What the evaluator does with one field\<close>

text \<open>The state after step 1 (the scan of all fields).\<close>

definition scanned :: "dict \<Rightarrow> state" where
  "scanned d = (case scan_fields d (initial d) of Inr st \<Rightarrow> st | Inl _ \<Rightarrow> initial d)"

text \<open>The categories in \<open>combinatorial_keys\<close> when step 2 starts.\<close>

definition detected :: "dict \<Rightarrow> string set" where
  "detected d = combinatorial_keys (scanned d)"

text \<open>The guard at the head of the loop body: the string that the branches look at, if any.\<close>

definition inspected :: "jvalue \<Rightarrow> string option" where
  "inspected val = (case val of JStr v \<Rightarrow> if strip v = [] then None else Some v | _ \<Rightarrow> None)"

text \<open>The test inside the UPI branch, on the second part of \<open>value.split('@')\<close>.\<close>

definition plain_domain :: "string \<Rightarrow> bool" where
  "plain_domain v =
     (case second (split_on CHR ''@'' [] v) of
        Inr d \<Rightarrow> length (split_on CHR ''.'' [] d) = 1
      | Inl _ \<Rightarrow> False)"

text \<open>The value that a standalone branch of step 1 writes for an inspected field, if one does.\<close>

definition standalone_value :: "string \<Rightarrow> string \<Rightarrow> string option" where
  "standalone_value key v =
     (if search PHONE_REGEX v \<and> key \<in> set [''phone'', ''contact''] then Some (redact_phone v)
      else if search AADHAR_REGEX v \<and> key \<in> set [''aadhar'', ''address_proof'']
        then Some (redact_aadhar v)
      else if search PASSPORT_REGEX v \<and> key \<in> set [''passport'']
        then (case redact_passport v of Inr r \<Rightarrow> Some r | Inl _ \<Rightarrow> None)
      else if search UPI_REGEX v \<and> key \<in> set [''upi_id''] \<and> plain_domain v
        then Some ''[REDACTED_UPI]''
      else None)"

definition standalone_match :: "string \<Rightarrow> jvalue \<Rightarrow> bool" where
  "standalone_match key val =
     (case inspected val of Some v \<Rightarrow> standalone_value key v \<noteq> None | None \<Rightarrow> False)"

text \<open>The category that a combinatorial branch of step 1 records for an inspected field.\<close>

definition category :: "string \<Rightarrow> string \<Rightarrow> string option" where
  "category key v =
     (if key = ''name'' \<and> 1 < length (split_words (strip v)) then Some ''name''
      else if search EMAIL_REGEX v \<and> key = ''email'' then Some ''email''
      else if key = ''address'' \<and> 10 < length (strip v) then Some ''address''
      else if key \<in> set [''ip_address'', ''device_id''] then Some ''device_context''
      else None)"

definition category_of :: "string \<Rightarrow> jvalue \<Rightarrow> string option" where
  "category_of key val = (case inspected val of Some v \<Rightarrow> category key v | None \<Rightarrow> None)"

text \<open>The value of a field after step 1, and after step 3 when its key is marked.\<close>

definition step1_value :: "string \<Rightarrow> jvalue \<Rightarrow> jvalue" where
  "step1_value key val =
     (case inspected val of
        Some v \<Rightarrow> (case standalone_value key v of Some r \<Rightarrow> JStr r | None \<Rightarrow> val)
      | None \<Rightarrow> val)"

definition step3_value :: "string \<Rightarrow> jvalue \<Rightarrow> jvalue" where
  "step3_value key val =
     (case val of
        JStr v \<Rightarrow>
          JStr (if key = ''name'' then redact_name v
                else if key = ''email'' then redact_email v
                else if key = ''address'' then ''[REDACTED_ADDRESS]''
                else ''[REDACTED_IDENTIFIER]'')
      | _ \<Rightarrow> val)"

text \<open>The keys that step 2 puts into \<open>pii_fields_to_redact\<close> for a set of categories.\<close>

definition marked_fields :: "string set \<Rightarrow> string list" where
  "marked_fields ck =
     (if ''name'' \<in> ck then [''name''] else []) @
     (if ''email'' \<in> ck then [''email''] else []) @
     (if ''address'' \<in> ck then [''address''] else []) @
     (if ''device_context'' \<in> ck then [''ip_address'', ''device_id''] else [])"

section \<open>The rule table of the specification\<close>

text \<open>
  The eight rules of the specification's table in its priority order: the field names of a
  rule, its match rule on the value, and what a match does. A rule matches a field when the
  field's name is one of the rule's and the value has the rule's shape.
\<close>

datatype rule = Phone | Aadhar | Passport | Upi | Name | Email | Address | DeviceContext



fun shape :: "rule \<Rightarrow> string \<Rightarrow> bool" where
  "shape Phone v = search PHONE_REGEX v"
| "shape Aadhar v = search AADHAR_REGEX v"
| "shape Passport v = search PASSPORT_REGEX v"
| "shape Upi v = (search UPI_REGEX v \<and> plain_domain v)"
| "shape Name v = (1 < length (split_words (strip v)))"
| "shape Email v = search EMAIL_REGEX v"
| "shape Address v = (10 < length (strip v))"
| "shape DeviceContext v = True"






section \<open>Readings of the specification's examples\<close>

text \<open>
  The phone property in the specification's words: of the digits of the value, the masked
  value keeps the first two and the last two and no other.
\<close>

definition keeps_outer_digits :: "string \<Rightarrow> string \<Rightarrow> bool" where
  "keeps_outer_digits v out =
     (filter is_digit out = take 2 (filter is_digit v) @ last_n 2 (filter is_digit v))"

text \<open>
  The UPI rule in the specification's words: the value has the shape of the pattern, and the
  text after the \<open>@\<close> holds no dot.
\<close>

definition after_at :: "string \<Rightarrow> string" where
  "after_at v = tl (dropWhile (\<lambda>c. c \<noteq> CHR ''@'') v)"

definition upi_claimed :: "string \<Rightarrow> bool" where
  "upi_claimed v = (search UPI_REGEX v \<and> CHR ''.'' \<notin> set (after_at v))"

text \<open>What the code tests instead: the text between the first \<open>@\<close> and the next one.\<close>

definition upi_segment :: "string \<Rightarrow> string" where
  "upi_segment v = takeWhile (\<lambda>c. c \<noteq> CHR ''@'') (after_at v)"

section \<open>Facts about the patterns and the string operations\<close>

lemma takeWhile_prefix_holds:
  assumes "t \<le> length (takeWhile P xs)" and "k < t"
  shows "k < length xs \<and> P (xs ! k)"
proof -
  have klt: "k < length (takeWhile P xs)" using assms by simp
  have "length (takeWhile P xs) \<le> length xs" by (rule length_takeWhile_le)
  moreover have "takeWhile P xs ! k = xs ! k" using klt by (rule takeWhile_nth)
  moreover have "P (takeWhile P xs ! k)" using klt by (meson nth_mem set_takeWhileD)
  ultimately show ?thesis using klt by simp
qed

lemma step_Rep_mem:
  assumes "j \<in> set (step (Rep cls lo hi) s i)" and "i \<le> length s"
  shows "\<exists>t. j = i + t \<and> lo \<le> t \<and> (\<forall>h. hi = Some h \<longrightarrow> t \<le> h) \<and> i + t \<le> length s
           \<and> (\<forall>k<t. cls (s ! (i + k)))"
proof -
  let ?k = "length (takeWhile cls (drop i s))"
  from assms obtain t where t: "j = i + t" "lo \<le> t" "t \<le> ?k" "\<forall>h. hi = Some h \<longrightarrow> t \<le> h"
    by (auto simp: Let_def split: option.splits)
  have len: "?k \<le> length s - i"
    using length_takeWhile_le [of cls "drop i s"] by simp
  have "\<forall>k<t. cls (s ! (i + k))"
  proof (intro allI impI)
    fix k assume "k < t"
    with t(3) have "k < length (drop i s) \<and> cls (drop i s ! k)"
      by (rule takeWhile_prefix_holds)
    then show "cls (s ! (i + k))" using assms(2) by simp
  qed
  moreover have "i + t \<le> length s"
    using t(3) len assms(2) by simp
  ultimately show ?thesis using t by blast
qed

lemma ends_WordB:
  "ends (WordB # rs) s i \<noteq> [] \<Longrightarrow> boundary s i \<and> ends rs s i \<noteq> []"
  by (simp split: if_splits)

lemma ends_Rep:
  assumes "ends (Rep cls lo hi # rs) s i \<noteq> []" and "i \<le> length s"
  shows "\<exists>t. lo \<le> t \<and> (\<forall>h. hi = Some h \<longrightarrow> t \<le> h) \<and> i + t \<le> length s
           \<and> (\<forall>k<t. cls (s ! (i + k))) \<and> ends rs s (i + t) \<noteq> []"
proof -
  from assms(1) obtain j where j: "j \<in> set (step (Rep cls lo hi) s i)" "ends rs s j \<noteq> []"
    by (auto simp del: step.simps)
  from step_Rep_mem [OF j(1) assms(2)] j(2) show ?thesis by blast
qed

lemma searchE:
  assumes "search rs s"
  obtains i where "i \<le> length s" and "ends rs s i \<noteq> []"
proof -
  from assms obtain i where "i \<in> set [0..<Suc (length s)]" and e: "ends rs s i \<noteq> []"
    unfolding search_def list_ex_iff by blast
  then have "i \<le> length s" by (simp del: upt_Suc)
  then show thesis using e by (rule that)
qed

lemma phone_shape:
  assumes "search PHONE_REGEX s"
  shows "\<exists>i. i + 10 \<le> length s \<and> (\<forall>k<10. is_digit (s ! (i + k)))"
proof -
  from assms obtain i where i: "i \<le> length s" "ends PHONE_REGEX s i \<noteq> []"
    by (rule searchE)
  from i(2) have "ends [rx_times is_digit 10, WordB] s i \<noteq> []"
    unfolding PHONE_REGEX_def by (blast dest: ends_WordB)
  from ends_Rep [OF this i(1)]
  obtain t where t: "10 \<le> t" "i + t \<le> length s" "\<forall>k<t. is_digit (s ! (i + k))"
    by blast
  have "i + 10 \<le> length s" using t(1,2) by simp
  moreover have "\<forall>k<10. is_digit (s ! (i + k))" using t(1,3) by simp
  ultimately show ?thesis by blast
qed

lemma aadhar_shape:
  assumes "search AADHAR_REGEX s"
  shows "\<exists>i. i + 12 \<le> length s \<and> is_digit (s ! i)"
proof -
  from assms obtain i where i: "i \<le> length s" "ends AADHAR_REGEX s i \<noteq> []"
    by (rule searchE)
  from i(2) have e0: "ends (tl AADHAR_REGEX) s i \<noteq> []"
    unfolding AADHAR_REGEX_def by (simp split: if_splits)
  from ends_Rep [OF e0 [unfolded AADHAR_REGEX_def list.sel] i(1)]
  obtain t1 where t1: "4 \<le> t1" "i + t1 \<le> length s" "\<forall>k<t1. is_digit (s ! (i + k))"
      "ends [rx_opt is_space, rx_times is_digit 4, rx_opt is_space, rx_times is_digit 4, WordB] s (i + t1) \<noteq> []"
    by blast
  from ends_Rep [OF t1(4) t1(2)]
  obtain t2 where t2: "i + t1 + t2 \<le> length s" 
      "ends [rx_times is_digit 4, rx_opt is_space, rx_times is_digit 4, WordB] s (i + t1 + t2) \<noteq> []"
    by blast
  from ends_Rep [OF t2(2) t2(1)]
  obtain t3 where t3: "4 \<le> t3" "i + t1 + t2 + t3 \<le> length s" 
      "ends [rx_opt is_space, rx_times is_digit 4, WordB] s (i + t1 + t2 + t3) \<noteq> []"
    by blast
  from ends_Rep [OF t3(3) t3(2)]
  obtain t4 where t4: "i + t1 + t2 + t3 + t4 \<le> length s" 
      "ends [rx_times is_digit 4, WordB] s (i + t1 + t2 + t3 + t4) \<noteq> []"
    by blast
  from ends_Rep [OF t4(2) t4(1)]
  obtain t5 where t5: "4 \<le> t5" "i + t1 + t2 + t3 + t4 + t5 \<le> length s" 
    by blast
  have "is_digit (s ! (i + 0))" using t1(1,3) by (metis less_le_trans zero_less_numeral)
  then show ?thesis using t1(1) t3(1) t5 by (intro exI [of _ i]) simp
qed

lemma passport_shape:
  assumes "search PASSPORT_REGEX s"
  shows "\<exists>i. i + 8 \<le> length s \<and> digit19 (s ! (i + 1))"
proof -
  from assms obtain i where i: "i \<le> length s" "ends PASSPORT_REGEX s i \<noteq> []"
    by (rule searchE)
  from i(2) have e0: "ends (tl PASSPORT_REGEX) s i \<noteq> []"
    unfolding PASSPORT_REGEX_def by (simp split: if_splits)
  from ends_Rep [OF e0 [unfolded PASSPORT_REGEX_def list.sel] i(1)]
  obtain t1 where t1: "1 \<le> t1" "t1 \<le> 1" "i + t1 \<le> length s" 
      "ends [rx_one digit19, rx_one is_digit, rx_opt is_space, rx_times is_digit 4, rx_one digit19, WordB] s (i + t1) \<noteq> []"
    by blast
  from ends_Rep [OF t1(4) t1(3)]
  obtain t2 where t2: "1 \<le> t2" "i + t1 + t2 \<le> length s" "\<forall>k<t2. digit19 (s ! (i + t1 + k))"
      "ends [rx_one is_digit, rx_opt is_space, rx_times is_digit 4, rx_one digit19, WordB] s (i + t1 + t2) \<noteq> []"
    by blast
  from ends_Rep [OF t2(4) t2(2)]
  obtain t3 where t3: "1 \<le> t3" "i + t1 + t2 + t3 \<le> length s"
      "ends [rx_opt is_space, rx_times is_digit 4, rx_one digit19, WordB] s (i + t1 + t2 + t3) \<noteq> []"
    by blast
  from ends_Rep [OF t3(3) t3(2)]
  obtain t4 where t4: "i + t1 + t2 + t3 + t4 \<le> length s"
      "ends [rx_times is_digit 4, rx_one digit19, WordB] s (i + t1 + t2 + t3 + t4) \<noteq> []"
    by blast
  from ends_Rep [OF t4(2) t4(1)]
  obtain t5 where t5: "4 \<le> t5" "i + t1 + t2 + t3 + t4 + t5 \<le> length s"
      "ends [rx_one digit19, WordB] s (i + t1 + t2 + t3 + t4 + t5) \<noteq> []"
    by blast
  from ends_Rep [OF t5(3) t5(2)]
  obtain t6 where t6: "1 \<le> t6" "i + t1 + t2 + t3 + t4 + t5 + t6 \<le> length s"
    by blast
  have "t1 = 1" using t1(1,2) by simp
  moreover have "digit19 (s ! (i + t1 + 0))" using t2(1,3) by (metis less_le_trans zero_less_one)
  ultimately have "digit19 (s ! (i + 1))" by simp
  moreover have "i + 8 \<le> length s" using t1(1) t2(1) t3(1) t5(1) t6 by simp
  ultimately show ?thesis by blast
qed

lemma upi_shape:
  assumes "search UPI_REGEX s"
  shows "CHR ''@'' \<in> set s"
proof -
  from assms obtain i where i: "i \<le> length s" "ends UPI_REGEX s i \<noteq> []"
    by (rule searchE)
  from ends_Rep [OF i(2) [unfolded UPI_REGEX_def] i(1)]
  obtain t1 where t1: "i + t1 \<le> length s" 
      "ends [rx_one is_at, rx_plus is_word] s (i + t1) \<noteq> []"
    by blast
  from ends_Rep [OF t1(2) t1(1)]
  obtain t2 where t2: "1 \<le> t2" "i + t1 + t2 \<le> length s" "\<forall>k<t2. is_at (s ! (i + t1 + k))"
    by blast
  then have "is_at (s ! (i + t1 + 0))" and "i + t1 < length s" by auto
  then show ?thesis by (auto simp: is_at_def dest: nth_mem)
qed


lemma strip_empty_iff: "strip v = [] \<longleftrightarrow> (\<forall>c\<in>set v. is_space c)"
proof
  assume e: "strip v = []"
  have "dropWhile is_space v = []"
  proof (rule ccontr)
    assume ne: "dropWhile is_space v \<noteq> []"
    then have "\<not> is_space (hd (dropWhile is_space v))" by (rule hd_dropWhile)
    moreover have "hd (dropWhile is_space v) \<in> set (dropWhile is_space v)"
      using ne by simp
    moreover have "\<forall>x\<in>set (dropWhile is_space v). is_space x"
    proof -
      have "dropWhile is_space (rev (dropWhile is_space v)) = []"
        using e unfolding strip_def by simp
      then show ?thesis by (simp add: dropWhile_eq_Nil_conv)
    qed
    ultimately show False by blast
  qed
  then show "\<forall>c\<in>set v. is_space c" by (simp add: dropWhile_eq_Nil_conv)
next
  assume "\<forall>c\<in>set v. is_space c"
  then show "strip v = []"
    unfolding strip_def by (auto simp: dropWhile_eq_Nil_conv dest: set_dropWhileD)
qed

lemma at_not_space: "\<not> is_space CHR ''@''"
  by (simp add: is_space_def code_in_def)

lemma split_on_nonempty: "split_on sep cur s \<noteq> []"
  by (induction s arbitrary: cur) simp_all

lemma split_on_two:
  "sep \<in> set s \<Longrightarrow> \<exists>a b rest. split_on sep cur s = a # b # rest"
proof (induction s arbitrary: cur)
  case Nil
  then show ?case by simp
next
  case (Cons c cs)
  show ?case
  proof (cases "c = sep")
    case True
    obtain b rest where "split_on sep [] cs = b # rest"
      using split_on_nonempty [of sep "[]" cs] by (cases "split_on sep [] cs") auto
    with True show ?thesis by simp
  next
    case False
    with Cons show ?thesis by simp
  qed
qed

lemma upi_second:
  assumes "search UPI_REGEX v"
  shows "\<exists>d. second (split_on CHR ''@'' [] v) = Inr d"
proof -
  from upi_shape [OF assms] obtain a b rest where "split_on CHR ''@'' [] v = a # b # rest"
    using split_on_two by blast
  then show ?thesis by (simp add: second_def)
qed

lemma passport_total: "v \<noteq> [] \<Longrightarrow> \<exists>r. redact_passport v = Inr r"
  by (cases v) (simp_all add: redact_passport_def)

lemma standalone_value_keys:
  "standalone_value key v = Some r \<Longrightarrow>
     key \<in> set [''phone'', ''contact'', ''aadhar'', ''address_proof'', ''passport'', ''upi_id'']"
  unfolding standalone_value_def by (auto split: if_splits)

lemma category_keys:
  "category key v = Some c \<Longrightarrow>
     key \<in> set [''name'', ''email'', ''address'', ''ip_address'', ''device_id'']"
  unfolding category_def by (auto split: if_splits)

lemma scan_field_str:
  assumes "strip v \<noteq> []"
  shows "scan_field key (JStr v) st =
     Inr (case standalone_value key v of
            Some r \<Rightarrow> set_item key r (found st)
          | None \<Rightarrow> (case category key v of Some c \<Rightarrow> add_category c st | None \<Rightarrow> st))"
proof -
  have ne: "v \<noteq> []" using assms by (auto simp: strip_def)
  from passport_total [OF ne] obtain r where r: "redact_passport v = Inr r" by blast
  show ?thesis
  proof (cases "search UPI_REGEX v")
    case True
    from upi_second [OF True] obtain d where d: "second (split_on CHR ''@'' [] v) = Inr d"
      by blast
    show ?thesis
      using assms r d True
      unfolding scan_field_def standalone_value_def category_def plain_domain_def
      by auto
  next
    case False
    show ?thesis
      using assms r False
      unfolding scan_field_def standalone_value_def category_def plain_domain_def
      by auto
  qed
qed

lemma scan_field_skip:
  "inspected val = None \<Longrightarrow> scan_field key val st = Inr st"
  by (cases val) (simp_all add: inspected_def scan_field_def split: if_splits)

section \<open>Step 1 of the evaluator\<close>

lemma category_excludes_standalone:
  assumes "category key v = Some c"
  shows "standalone_value key v = None"
proof (cases "standalone_value key v")
  case None
  then show ?thesis .
next
  case (Some r)
  from standalone_value_keys [OF Some] category_keys [OF assms] show ?thesis by auto
qed

lemma scan_field_fields:
  obtains st' where "scan_field key val st = Inr st'"
    and "data st' = data st"
    and "pii_fields_to_redact st' = pii_fields_to_redact st"
    and "the_copy st' =
          (if standalone_match key val
           then AList.update key (step1_value key val) (the_copy st)
           else the_copy st)"
    and "is_pii_found st' = (is_pii_found st \<or> standalone_match key val)"
    and "combinatorial_keys st' =
          (case category_of key val of
             Some c \<Rightarrow> insert c (combinatorial_keys st)
           | None \<Rightarrow> combinatorial_keys st)"
proof (cases "inspected val")
  case None
  then have "scan_field key val st = Inr st" by (rule scan_field_skip)
  then show thesis
    using None by (intro that [of st]) (simp_all add: standalone_match_def category_of_def)
next
  case (Some v)
  then have val: "val = JStr v" and ne: "strip v \<noteq> []"
    by (auto simp: inspected_def split: jvalue.splits if_splits)
  note eq = scan_field_str [OF ne, of key st, folded val]
  show thesis
  proof (cases "standalone_value key v")
    case sv: (Some r)
    have c: "category key v = None"
      using category_excludes_standalone [of key v] sv by (cases "category key v") auto
    show thesis
      using eq sv c Some
      by (intro that [of "set_item key r (found st)"])
         (simp_all add: standalone_match_def category_of_def step1_value_def set_item_def
            found_def)
  next
    case sv: None
    show thesis
    proof (cases "category key v")
      case None
      show thesis
        using eq sv None Some
        by (intro that [of st]) (simp_all add: standalone_match_def category_of_def)
    next
      case c: (Some c)
      show thesis
        using eq sv c Some
        by (intro that [of "add_category c st"])
           (simp_all add: standalone_match_def category_of_def add_category_def)
    qed
  qed
qed

lemma update_middle:
  "k \<notin> fst ` set pre \<Longrightarrow> AList.update k v (pre @ (k, w) # rest) = pre @ (k, v) # rest"
  by (induction pre) auto

lemma step1_value_no_match: "\<not> standalone_match key val \<Longrightarrow> step1_value key val = val"
  by (auto simp: standalone_match_def step1_value_def split: option.splits)

lemma scan_field_keys:
  assumes "scan_field key val st = Inr st'" and "key \<in> fst ` set (the_copy st)"
  shows "map fst (the_copy st') = map fst (the_copy st)"
proof -
  obtain st1 where st1: "scan_field key val st = Inr st1"
    "the_copy st1 =
          (if standalone_match key val
           then AList.update key (step1_value key val) (the_copy st)
           else the_copy st)"
    by (rule scan_field_fields)
  then have "st' = st1" using assms(1) by simp
  then show ?thesis using st1(2) assms(2) by (simp add: update_keys)
qed

lemma scan_fields_general:
  assumes "fst ` set items \<subseteq> fst ` set (the_copy st)"
  shows "\<exists>st'. scan_fields items st = Inr st' \<and> data st' = data st
     \<and> pii_fields_to_redact st' = pii_fields_to_redact st
     \<and> map fst (the_copy st') = map fst (the_copy st)
     \<and> is_pii_found st' = (is_pii_found st \<or> (\<exists>(k, val)\<in>set items. standalone_match k val))
     \<and> combinatorial_keys st' =
         combinatorial_keys st \<union> {c. \<exists>(k, val)\<in>set items. category_of k val = Some c}"
  using assms
proof (induction items arbitrary: st)
  case Nil
  then show ?case by simp
next
  case (Cons item items)
  obtain key val where item: "item = (key, val)" by (cases item)
  obtain st1 where st1: "scan_field key val st = Inr st1"
    "data st1 = data st" "pii_fields_to_redact st1 = pii_fields_to_redact st"
    "is_pii_found st1 = (is_pii_found st \<or> standalone_match key val)"
    "combinatorial_keys st1 =
          (case category_of key val of
             Some c \<Rightarrow> insert c (combinatorial_keys st)
           | None \<Rightarrow> combinatorial_keys st)"
    by (rule scan_field_fields)
  have "key \<in> fst ` set (the_copy st)" using Cons.prems item by auto
  from scan_field_keys [OF st1(1) this]
  have k1: "map fst (the_copy st1) = map fst (the_copy st)" .
  then have "fst ` set (the_copy st1) = fst ` set (the_copy st)"
    by (metis list.set_map)
  then have "fst ` set items \<subseteq> fst ` set (the_copy st1)" using Cons.prems by auto
  from Cons.IH [OF this] obtain st' where st': "scan_fields items st1 = Inr st'"
    "data st' = data st1" "pii_fields_to_redact st' = pii_fields_to_redact st1"
    "map fst (the_copy st') = map fst (the_copy st1)"
    "is_pii_found st' = (is_pii_found st1 \<or> (\<exists>(k, val)\<in>set items. standalone_match k val))"
    "combinatorial_keys st' =
         combinatorial_keys st1 \<union> {c. \<exists>(k, val)\<in>set items. category_of k val = Some c}"
    by blast
  have "scan_fields (item # items) st = Inr st'" using item st1(1) st'(1) by simp
  moreover have "data st' = data st" using st'(2) st1(2) by simp
  moreover have "pii_fields_to_redact st' = pii_fields_to_redact st" using st'(3) st1(3) by simp
  moreover have "map fst (the_copy st') = map fst (the_copy st)"
    using st'(4) k1 by simp
  moreover have "is_pii_found st' =
      (is_pii_found st \<or> (\<exists>(k, val)\<in>set (item # items). standalone_match k val))"
    using st'(5) st1(4) item by auto
  moreover have "combinatorial_keys st' =
         combinatorial_keys st \<union> {c. \<exists>(k, val)\<in>set (item # items). category_of k val = Some c}"
    using st'(6) st1(5) item by (auto split: option.splits)
  ultimately show ?case by blast
qed

lemma scan_fields_values:
  assumes "distinct (map fst (pre @ items))" and "the_copy st = pre @ items"
    and "scan_fields items st = Inr st'"
  shows "the_copy st' = pre @ map (\<lambda>(k, val). (k, step1_value k val)) items"
  using assms
proof (induction items arbitrary: pre st)
  case Nil
  then show ?case by simp
next
  case (Cons item items)
  obtain key val where item: "item = (key, val)" by (cases item)
  obtain st1 where st1: "scan_field key val st = Inr st1"
    "the_copy st1 =
          (if standalone_match key val
           then AList.update key (step1_value key val) (the_copy st)
           else the_copy st)"
    by (rule scan_field_fields)
  have notin: "key \<notin> fst ` set pre" using Cons.prems(1) item by auto
  have rd1: "the_copy st1 = (pre @ [(key, step1_value key val)]) @ items"
    using st1(2) Cons.prems(2) item update_middle [OF notin] step1_value_no_match [of key val]
    by auto
  have d1: "distinct (map fst ((pre @ [(key, step1_value key val)]) @ items))"
    using Cons.prems(1) item by simp
  have "scan_fields items st1 = Inr st'" using Cons.prems(3) item st1(1) by simp
  from Cons.IH [OF d1 rd1 this] show ?case using item by simp
qed

lemma scanned_general:
  shows "scan_fields d (initial d) = Inr (scanned d)"
    and "data (scanned d) = 0"
    and "pii_fields_to_redact (scanned d) = []"
    and "map fst (the_copy (scanned d)) = map fst d"
    and "is_pii_found (scanned d) = (\<exists>(k, val)\<in>set d. standalone_match k val)"
    and "combinatorial_keys (scanned d) = {c. \<exists>(k, val)\<in>set d. category_of k val = Some c}"
proof -
  have "fst ` set d \<subseteq> fst ` set (the_copy (initial d))" by (simp add: initial_def enter_def)
  from scan_fields_general [OF this] obtain st' where st': "scan_fields d (initial d) = Inr st'"
    "data st' = data (initial d)"
    "pii_fields_to_redact st' = pii_fields_to_redact (initial d)"
    "map fst (the_copy st') = map fst (the_copy (initial d))"
    "is_pii_found st' = (is_pii_found (initial d) \<or> (\<exists>(k, val)\<in>set d. standalone_match k val))"
    "combinatorial_keys st' =
         combinatorial_keys (initial d) \<union> {c. \<exists>(k, val)\<in>set d. category_of k val = Some c}"
    by blast
  have s: "scanned d = st'" using st'(1) by (simp add: scanned_def)
  show "scan_fields d (initial d) = Inr (scanned d)" using st'(1) s by simp
  show "data (scanned d) = 0" using st'(2) s by (simp add: initial_def enter_def)
  show "pii_fields_to_redact (scanned d) = []" using st'(3) s by (simp add: initial_def enter_def)
  show "map fst (the_copy (scanned d)) = map fst d"
    using st'(4) s by (simp add: initial_def enter_def)
  show "is_pii_found (scanned d) = (\<exists>(k, val)\<in>set d. standalone_match k val)"
    using st'(5) s by (simp add: initial_def enter_def)
  show "combinatorial_keys (scanned d) = {c. \<exists>(k, val)\<in>set d. category_of k val = Some c}"
    using st'(6) s by (simp add: initial_def enter_def)
qed

lemma scanned_values:
  assumes "distinct (map fst d)"
  shows "the_copy (scanned d) = map (\<lambda>(k, val). (k, step1_value k val)) d"
proof -
  have "distinct (map fst ([] @ d))" using assms by simp
  moreover have "the_copy (initial d) = [] @ d" by (simp add: initial_def enter_def)
  ultimately have "the_copy (scanned d) = [] @ map (\<lambda>(k, val). (k, step1_value k val)) d"
    using scanned_general(1) by (rule scan_fields_values)
  then show ?thesis by simp
qed

section \<open>Steps 2 and 3 of the evaluator\<close>

lemma add_field_frame:
  shows "objects (add_field k st) = objects st"
    and "unused (add_field k st) = unused st"
    and "data (add_field k st) = data st"
    and "redacted_data (add_field k st) = redacted_data st"
    and "is_pii_found (add_field k st) = is_pii_found st"
    and "combinatorial_keys (add_field k st) = combinatorial_keys st"
  by (simp_all add: add_field_def)

lemma add_field_list:
  "pii_fields_to_redact (add_field k st) =
     (if k \<in> set (pii_fields_to_redact st) then pii_fields_to_redact st
      else pii_fields_to_redact st @ [k])"
  by (simp add: add_field_def)

lemma found_frame:
  shows "objects (found st) = objects st"
    and "unused (found st) = unused st"
    and "data (found st) = data st"
    and "redacted_data (found st) = redacted_data st"
    and "combinatorial_keys (found st) = combinatorial_keys st"
    and "pii_fields_to_redact (found st) = pii_fields_to_redact st"
    and "is_pii_found (found st)"
  by (simp_all add: found_def)

lemma evaluate_frame:
  shows "objects (evaluate_combinatorial st) = objects st"
    and "unused (evaluate_combinatorial st) = unused st"
    and "data (evaluate_combinatorial st) = data st"
    and "redacted_data (evaluate_combinatorial st) = redacted_data st"
    and "combinatorial_keys (evaluate_combinatorial st) = combinatorial_keys st"
    and "is_pii_found (evaluate_combinatorial st) =
           (is_pii_found st \<or> 2 \<le> card (combinatorial_keys st))"
  unfolding evaluate_combinatorial_def Let_def
  by (simp_all add: add_field_frame found_frame)

lemma evaluate_marked:
  assumes "pii_fields_to_redact st = []"
  shows "pii_fields_to_redact (evaluate_combinatorial st) =
           (if 2 \<le> card (combinatorial_keys st) then marked_fields (combinatorial_keys st)
            else [])"
proof (cases "2 \<le> card (combinatorial_keys st)")
  case False
  then show ?thesis using assms by (simp add: evaluate_combinatorial_def)
next
  case True
  let ?ck = "combinatorial_keys st"
  define st1 where "st1 = found st"
  define st2 where "st2 = (if ''name'' \<in> ?ck then add_field ''name'' st1 else st1)"
  define st3 where "st3 = (if ''email'' \<in> ?ck then add_field ''email'' st2 else st2)"
  define st4 where "st4 = (if ''address'' \<in> ?ck then add_field ''address'' st3 else st3)"
  define st5 where "st5 = (if ''device_context'' \<in> ?ck
      then add_field ''device_id'' (add_field ''ip_address'' st4) else st4)"
  have c1: "combinatorial_keys st1 = ?ck" by (simp add: st1_def found_frame)
  have c2: "combinatorial_keys st2 = ?ck" by (simp add: st2_def c1 add_field_frame)
  have c3: "combinatorial_keys st3 = ?ck" by (simp add: st3_def c2 add_field_frame)
  have c4: "combinatorial_keys st4 = ?ck" by (simp add: st4_def c3 add_field_frame)
  have ev: "evaluate_combinatorial st = st5"
    using True
    unfolding evaluate_combinatorial_def Let_def st5_def st4_def st3_def st2_def st1_def
    by (simp add: add_field_frame found_frame)
  have p1: "pii_fields_to_redact st1 = []" by (simp add: st1_def found_frame assms)
  have p2: "pii_fields_to_redact st2 = (if ''name'' \<in> ?ck then [''name''] else [])"
    by (simp add: st2_def add_field_list p1)
  have p3: "pii_fields_to_redact st3 =
      pii_fields_to_redact st2 @ (if ''email'' \<in> ?ck then [''email''] else [])"
    by (simp add: st3_def add_field_list p2)
  have p4: "pii_fields_to_redact st4 =
      pii_fields_to_redact st3 @ (if ''address'' \<in> ?ck then [''address''] else [])"
    by (simp add: st4_def add_field_list p3 p2)
  have p5: "pii_fields_to_redact st5 =
      pii_fields_to_redact st4 @
        (if ''device_context'' \<in> ?ck then [''ip_address'', ''device_id''] else [])"
    by (simp add: st5_def add_field_list p4 p3 p2)
  show ?thesis unfolding ev p5 p4 p3 p2 using True by (simp add: marked_fields_def)
qed

lemma evaluate_fields:
  assumes "pii_fields_to_redact st = []"
  shows "data (evaluate_combinatorial st) = data st"
    and "the_copy (evaluate_combinatorial st) = the_copy st"
    and "combinatorial_keys (evaluate_combinatorial st) = combinatorial_keys st"
    and "is_pii_found (evaluate_combinatorial st) =
           (is_pii_found st \<or> 2 \<le> card (combinatorial_keys st))"
    and "pii_fields_to_redact (evaluate_combinatorial st) =
           (if 2 \<le> card (combinatorial_keys st) then marked_fields (combinatorial_keys st)
            else [])"
  using evaluate_marked [OF assms] by (simp_all add: evaluate_frame)

lemma distinct_marked_fields: "distinct (marked_fields ck)"
  by (simp add: marked_fields_def)

lemma redact_field_frame:
  shows "data (redact_field key st) = data st"
    and "is_pii_found (redact_field key st) = is_pii_found st"
    and "combinatorial_keys (redact_field key st) = combinatorial_keys st"
    and "pii_fields_to_redact (redact_field key st) = pii_fields_to_redact st"
  by (simp_all add: redact_field_def set_item_def split: option.splits jvalue.splits)

lemma redact_field_update:
  "the_copy (redact_field key st) =
     (case map_of (the_copy st) key of
        Some (JStr v) \<Rightarrow> AList.update key (step3_value key (JStr v)) (the_copy st)
      | _ \<Rightarrow> the_copy st)"
  by (simp add: redact_field_def set_item_def step3_value_def split: option.splits jvalue.splits)

lemma redact_field_keys:
  "map fst (the_copy (redact_field key st)) = map fst (the_copy st)"
proof (cases "map_of (the_copy st) key")
  case None
  then show ?thesis by (simp add: redact_field_update)
next
  case (Some val)
  then have "(key, val) \<in> set (the_copy st)" by (rule map_of_SomeD)
  then have "key \<in> fst ` set (the_copy st)" by force
  then show ?thesis
    using Some by (simp add: redact_field_update update_keys split: jvalue.splits)
qed

lemma map_other_key:
  "key \<notin> fst ` set al \<Longrightarrow>
     map (\<lambda>(k, val). (k, if k = key then f k val else val)) al = al"
  by (induction al) auto

lemma update_as_map:
  assumes "distinct (map fst al)" and "map_of al k = Some w"
  shows "AList.update k v al = map (\<lambda>(k', val). (k', if k' = k then v else val)) al"
  using assms
proof (induction al)
  case Nil
  then show ?case by simp
next
  case (Cons p al)
  obtain k0 w0 where p: "p = (k0, w0)" by (cases p)
  show ?case
  proof (cases "k0 = k")
    case True
    have "k \<notin> fst ` set al" using Cons.prems(1) p True by auto
    then have "map (\<lambda>(k', val). (k', if k' = k then (\<lambda>_ _. v) k' val else val)) al = al"
      by (rule map_other_key)
    with True p show ?thesis by simp
  next
    case False
    with Cons p show ?thesis by simp
  qed
qed

lemma redact_field_values:
  assumes "distinct (map fst (the_copy st))"
  shows "the_copy (redact_field key st) =
           map (\<lambda>(k, val). (k, if k = key then step3_value k val else val)) (the_copy st)"
proof (cases "map_of (the_copy st) key")
  case None
  then have "key \<notin> fst ` set (the_copy st)" by (simp add: map_of_eq_None_iff)
  then have "map (\<lambda>(k, val). (k, if k = key then step3_value k val else val)) (the_copy st)
      = the_copy st"
    by (rule map_other_key)
  with None show ?thesis by (simp add: redact_field_update)
next
  case (Some val)
  have pt: "\<And>k w. (k, w) \<in> set (the_copy st) \<Longrightarrow> k = key \<Longrightarrow> w = val"
    using Some assms by (metis map_of_is_SomeI option.inject)
  have "the_copy (redact_field key st) = AList.update key (step3_value key val) (the_copy st)"
  proof (cases val)
    case (JStr v)
    with Some show ?thesis by (simp add: redact_field_update)
  next
    case (JNum n)
    with Some show ?thesis by (simp add: redact_field_update step3_value_def update_triv)
  next
    case (JBool b)
    with Some show ?thesis by (simp add: redact_field_update step3_value_def update_triv)
  next
    case JNull
    with Some show ?thesis by (simp add: redact_field_update step3_value_def update_triv)
  qed
  also have "\<dots> = map (\<lambda>(k', w). (k', if k' = key then step3_value key val else w)) (the_copy st)"
    using assms Some by (rule update_as_map)
  also have "\<dots> = map (\<lambda>(k, w). (k, if k = key then step3_value k w else w)) (the_copy st)"
    using pt by (intro map_cong) auto
  finally show ?thesis .
qed

lemma fold_redact_frame:
  shows "data (fold redact_field ks st) = data st"
    and "is_pii_found (fold redact_field ks st) = is_pii_found st"
    and "combinatorial_keys (fold redact_field ks st) = combinatorial_keys st"
    and "map fst (the_copy (fold redact_field ks st)) = map fst (the_copy st)"
  by (induction ks arbitrary: st) (simp_all add: redact_field_frame redact_field_keys)

lemma fold_redact_values:
  assumes "distinct (map fst (the_copy st))" and "distinct ks"
  shows "the_copy (fold redact_field ks st) =
           map (\<lambda>(k, val). (k, if k \<in> set ks then step3_value k val else val)) (the_copy st)"
  using assms
proof (induction ks arbitrary: st)
  case Nil
  then show ?case by simp
next
  case (Cons key ks)
  have d: "distinct (map fst (the_copy (redact_field key st)))"
    using Cons.prems(1) by (simp add: redact_field_keys)
  have "the_copy (fold redact_field (key # ks) st) =
      map (\<lambda>(k, val). (k, if k \<in> set ks then step3_value k val else val))
        (the_copy (redact_field key st))"
    using Cons.IH [OF d] Cons.prems(2) by simp
  also have "\<dots> = map (\<lambda>(k, val). (k, if k \<in> set ks then step3_value k val else val))
        (map (\<lambda>(k, val). (k, if k = key then step3_value k val else val)) (the_copy st))"
    using Cons.prems(1) by (simp add: redact_field_values)
  also have "\<dots> = map (\<lambda>(k, val). (k, if k \<in> set (key # ks) then step3_value k val else val))
        (the_copy st)"
    using Cons.prems(2) by (auto simp: comp_def)
  finally show ?case .
qed

section \<open>The result of \<open>process_record\<close>\<close>

lemma run_eq: "run d = Inr (redact_fields (evaluate_combinatorial (scanned d)))"
proof -
  have "objects (initial d) (data (initial d)) = d" by (simp add: initial_def enter_def)
  then show ?thesis
    unfolding run_def call_def initial_def [symmetric]
    using scanned_general(1) [of d] by simp
qed

lemma process_record_eq:
  "process_record d =
     Inr (the_copy (redact_fields (evaluate_combinatorial (scanned d))),
          (\<exists>(k, val)\<in>set d. standalone_match k val) \<or> 2 \<le> card (detected d))"
  unfolding process_record_def run_eq redact_fields_def detected_def
  by (simp add: fold_redact_frame evaluate_fields scanned_general)

lemma final_keys:
  "map fst (the_copy (redact_fields (evaluate_combinatorial (scanned d)))) = map fst d"
  unfolding redact_fields_def
  by (simp add: fold_redact_frame evaluate_fields scanned_general)

lemma final_values:
  assumes "distinct (map fst d)"
  shows "the_copy (redact_fields (evaluate_combinatorial (scanned d))) =
     map (\<lambda>(k, val).
           (k, if 2 \<le> card (detected d) \<and> k \<in> set (marked_fields (detected d))
               then step3_value k (step1_value k val) else step1_value k val)) d"
proof -
  let ?ev = "evaluate_combinatorial (scanned d)"
  have rd: "the_copy ?ev = map (\<lambda>(k, val). (k, step1_value k val)) d"
    using assms by (simp add: evaluate_fields scanned_general scanned_values)
  have dk: "distinct (map fst (the_copy ?ev))"
    using assms by (simp add: evaluate_fields scanned_general)
  have ks: "pii_fields_to_redact ?ev =
      (if 2 \<le> card (detected d) then marked_fields (detected d) else [])"
    by (simp add: evaluate_fields scanned_general detected_def)
  have dks: "distinct (pii_fields_to_redact ?ev)"
    unfolding ks by (simp add: distinct_marked_fields)
  have "the_copy (redact_fields ?ev) =
      map (\<lambda>(k, val). (k, if k \<in> set (pii_fields_to_redact ?ev) then step3_value k val else val))
        (the_copy ?ev)"
    unfolding redact_fields_def using dk dks by (rule fold_redact_values)
  also have "\<dots> = map (\<lambda>(k, val).
           (k, if 2 \<le> card (detected d) \<and> k \<in> set (marked_fields (detected d))
               then step3_value k (step1_value k val) else step1_value k val)) d"
    unfolding rd ks by (auto simp: comp_def)
  finally show ?thesis .
qed

lemma map_of_keyed_map:
  "map_of (map (\<lambda>(k, val). (k, f k val)) d) key = map_option (f key) (map_of d key)"
  by (induction d) auto

lemma detected_eq: "detected d = {c. \<exists>(k, val)\<in>set d. category_of k val = Some c}"
  unfolding detected_def by (rule scanned_general)

lemma detected_list: "detected d = set (List.map_filter (\<lambda>(k, val). category_of k val) d)"
  unfolding detected_eq by (force simp: List.map_filter_def)

lemma category_of_cases:
  assumes "category_of k val = Some c"
  obtains v where "val = JStr v" and "strip v \<noteq> []" and "category k v = Some c"
  using assms unfolding category_of_def inspected_def
  by (auto split: jvalue.splits if_splits)

lemma category_name: "category k v = Some ''name'' \<Longrightarrow> k = ''name''"
  unfolding category_def by (auto split: if_splits)

lemma category_email: "category k v = Some ''email'' \<Longrightarrow> k = ''email''"
  unfolding category_def by (auto split: if_splits)

lemma category_address: "category k v = Some ''address'' \<Longrightarrow> k = ''address''"
  unfolding category_def by (auto split: if_splits)

lemma detected_field:
  assumes "distinct (map fst d)" and "c \<in> detected d" and "c \<in> {''name'', ''email'', ''address''}"
  shows "\<exists>v. map_of d c = Some (JStr v) \<and> category c v = Some c"
proof -
  from assms(2) obtain k val where kv: "(k, val) \<in> set d" "category_of k val = Some c"
    unfolding detected_eq by blast
  from kv(2) obtain v where v: "val = JStr v" "category k v = Some c"
    by (rule category_of_cases)
  have "k = c" using assms(3) v(2) category_name category_email category_address by blast
  moreover have "map_of d k = Some val" using assms(1) kv(1) by (rule map_of_is_SomeI)
  ultimately show ?thesis using v by simp
qed

lemma step1_value_other:
  assumes "k \<in> {''name'', ''email'', ''address'', ''ip_address'', ''device_id''}"
  shows "step1_value k val = val"
proof -
  have "standalone_value k v = None" for v
  proof (cases "standalone_value k v")
    case (Some r)
    from standalone_value_keys [OF this] assms show ?thesis by auto
  qed simp
  then show ?thesis by (simp add: step1_value_def split: option.splits)
qed

lemma standalone_match_keys:
  assumes "standalone_match key val"
  shows "key \<in> set [''phone'', ''contact'', ''aadhar'', ''address_proof'', ''passport'', ''upi_id'']"
proof -
  from assms obtain v r where "standalone_value key v = Some r"
    by (auto simp: standalone_match_def split: option.splits)
  then show ?thesis by (rule standalone_value_keys)
qed

lemma process_record_lookup:
  assumes "distinct (map fst d)"
  shows "\<exists>rd. process_record d =
            Inr (rd, (\<exists>(k, val)\<in>set d. standalone_match k val) \<or> 2 \<le> card (detected d))
     \<and> (\<forall>k. map_of rd k =
           map_option (\<lambda>val. if 2 \<le> card (detected d) \<and> k \<in> set (marked_fields (detected d))
               then step3_value k (step1_value k val) else step1_value k val) (map_of d k))"
  unfolding process_record_eq final_values [OF assms]
  by (simp add: map_of_keyed_map)

lemma digit_not_space: "is_digit c \<Longrightarrow> \<not> is_space c"
  by (auto simp: is_digit_def in_range_def is_space_def code_in_def)

lemma X_not_digit: "\<not> is_digit CHR ''X''"
  by (simp add: is_digit_def in_range_def)

lemma phone_not_blank:
  assumes "search PHONE_REGEX v"
  shows "strip v \<noteq> []"
proof -
  from phone_shape [OF assms] obtain i where i: "i + 10 \<le> length v" "\<forall>k<10. is_digit (v ! (i + k))"
    by blast
  then have "is_digit (v ! (i + 0))" by (metis zero_less_numeral)
  then have "\<not> is_space (v ! i)" by (simp add: digit_not_space)
  moreover have "v ! i \<in> set v" using i(1) by simp
  ultimately show ?thesis unfolding strip_empty_iff by blast
qed

lemma phone_ten_digits:
  assumes "search PHONE_REGEX v" and "length v = 10"
  shows "\<forall>c\<in>set v. is_digit c"
proof -
  from phone_shape [OF assms(1)] obtain i where i: "i + 10 \<le> length v" "\<forall>k<10. is_digit (v ! (i + k))"
    by blast
  then have "i = 0" using assms(2) by simp
  with i(2) assms(2) show ?thesis by (auto simp: in_set_conv_nth)
qed

lemma standalone_phone:
  assumes "k \<in> {''phone'', ''contact''}" and "search PHONE_REGEX v"
  shows "standalone_value k v = Some (redact_phone v)"
  using assms unfolding standalone_value_def by auto

lemma marked_fields_subset:
  "set (marked_fields ck) \<subseteq> {''name'', ''email'', ''address'', ''ip_address'', ''device_id''}"
  by (auto simp: marked_fields_def)

lemma standalone_final:
  assumes "distinct (map fst d)" and "map_of d k = Some (JStr v)" and "strip v \<noteq> []"
    and "standalone_value k v = Some r"
  shows "\<exists>rd. process_record d = Inr (rd, True) \<and> map_of rd k = Some (JStr r)"
proof -
  have insp: "inspected (JStr v) = Some v" using assms(3) by (simp add: inspected_def)
  have m: "standalone_match k (JStr v)" using insp assms(4) by (simp add: standalone_match_def)
  have "(k, JStr v) \<in> set d" using assms(2) by (rule map_of_SomeD)
  with m have ex: "\<exists>(k, val)\<in>set d. standalone_match k val" by blast
  have "k \<notin> set (marked_fields (detected d))"
    using standalone_value_keys [OF assms(4)] marked_fields_subset [of "detected d"] by auto
  moreover have "step1_value k (JStr v) = JStr r"
    using insp assms(4) by (simp add: step1_value_def)
  ultimately show ?thesis
    using process_record_lookup [OF assms(1)] ex assms(2) by auto
qed

lemma split_on_head:
  "split_on sep cur s =
     (cur @ takeWhile (\<lambda>c. c \<noteq> sep) s) #
     (case dropWhile (\<lambda>c. c \<noteq> sep) s of [] \<Rightarrow> [] | _ # rest \<Rightarrow> split_on sep [] rest)"
  by (induction s arbitrary: cur) auto

lemma length_split_on_one: "length (split_on sep cur s) = 1 \<longleftrightarrow> sep \<notin> set s"
proof (induction s arbitrary: cur)
  case Nil
  then show ?case by simp
next
  case (Cons c cs)
  show ?case
  proof (cases "c = sep")
    case True
    have "split_on sep [] cs \<noteq> []" by (rule split_on_nonempty)
    with True show ?thesis by simp
  next
    case False
    with Cons show ?thesis by simp
  qed
qed

lemma second_split_at:
  assumes "CHR ''@'' \<in> set v"
  shows "second (split_on CHR ''@'' [] v) = Inr (upi_segment v)"
proof -
  from assms have "dropWhile (\<lambda>c. c \<noteq> CHR ''@'') v \<noteq> []"
    by (simp add: dropWhile_eq_Nil_conv)
  then obtain x rest where dw: "dropWhile (\<lambda>c. c \<noteq> CHR ''@'') v = x # rest"
    by (cases "dropWhile (\<lambda>c. c \<noteq> CHR ''@'') v") auto
  then have rest: "after_at v = rest" by (simp add: after_at_def)
  have "split_on CHR ''@'' [] v = takeWhile (\<lambda>c. c \<noteq> CHR ''@'') v # split_on CHR ''@'' [] rest"
    using split_on_head [of "CHR ''@''" "[]" v] dw by simp
  also have "split_on CHR ''@'' [] rest = takeWhile (\<lambda>c. c \<noteq> CHR ''@'') rest #
     (case dropWhile (\<lambda>c. c \<noteq> CHR ''@'') rest of [] \<Rightarrow> [] | _ # r \<Rightarrow> split_on CHR ''@'' [] r)"
    using split_on_head [of "CHR ''@''" "[]" rest] by simp
  finally show ?thesis by (simp add: second_def upi_segment_def rest)
qed

lemma plain_domain_iff:
  assumes "CHR ''@'' \<in> set v"
  shows "plain_domain v \<longleftrightarrow> CHR ''.'' \<notin> set (upi_segment v)"
  unfolding plain_domain_def second_split_at [OF assms]
  using length_split_on_one [of "CHR ''.''" "[]" "upi_segment v"] by simp

lemma upi_not_blank:
  assumes "search UPI_REGEX v"
  shows "strip v \<noteq> []"
  using upi_shape [OF assms] at_not_space unfolding strip_empty_iff by blast

lemma standalone_upi:
  "standalone_value ''upi_id'' v =
     (if search UPI_REGEX v \<and> CHR ''.'' \<notin> set (upi_segment v) then Some ''[REDACTED_UPI]''
      else None)"
proof (cases "search UPI_REGEX v")
  case True
  from plain_domain_iff [OF upi_shape [OF True]] True show ?thesis
    unfolding standalone_value_def by simp
next
  case False
  then show ?thesis unfolding standalone_value_def by simp
qed

lemma not_standalone_final:
  assumes "distinct (map fst d)" and "map_of d k = Some val" and "\<not> standalone_match k val"
    and "k \<notin> {''name'', ''email'', ''address'', ''ip_address'', ''device_id''}"
  shows "\<exists>rd pii. process_record d = Inr (rd, pii) \<and> map_of rd k = Some val"
proof -
  have nm: "k \<notin> set (marked_fields (detected d))"
  proof
    assume "k \<in> set (marked_fields (detected d))"
    then have "k \<in> {''name'', ''email'', ''address'', ''ip_address'', ''device_id''}"
      by (rule subsetD [OF marked_fields_subset])
    with assms(4) show False by (rule notE)
  qed
  have s1: "step1_value k val = val" using assms(3) by (rule step1_value_no_match)
  let ?f = "\<lambda>k val. if 2 \<le> card (detected d) \<and> k \<in> set (marked_fields (detected d))
               then step3_value k (step1_value k val) else step1_value k val"
  let ?rd = "map (\<lambda>(k, val). (k, ?f k val)) d"
  have "map_of ?rd k = map_option (?f k) (map_of d k)" by (rule map_of_keyed_map)
  then have "map_of ?rd k = Some val" using nm s1 assms(2) by simp
  moreover have "the_copy (redact_fields (evaluate_combinatorial (scanned d))) = ?rd"
    using assms(1) by (rule final_values)
  ultimately show ?thesis unfolding process_record_eq by simp
qed

lemma process_record_single:
  "process_record [(k, val)] =
     Inr ([(k, if standalone_match k val then step1_value k val else val)],
          standalone_match k val)"
proof -
  let ?d = "[(k, val)]"
  have "detected ?d = set (List.map_filter (\<lambda>(k, val). category_of k val) ?d)"
    by (rule detected_list)
  then have "card (detected ?d) \<le> 1"
    by (cases "category_of k val") (simp_all add: List.map_filter_simps)
  then have no: "\<not> 2 \<le> card (detected ?d)" by simp
  have d: "distinct (map fst ?d)" by simp
  show ?thesis
    unfolding process_record_eq final_values [OF d]
    using no by (simp add: step1_value_no_match)
qed

section \<open>The store: what a call writes, and the order of iteration\<close>

lemma writes_copy_only_refl: "writes_copy_only st st"
  by (simp add: writes_copy_only_def)

lemma writes_copy_only_trans:
  "writes_copy_only st st1 \<Longrightarrow> writes_copy_only st1 st2 \<Longrightarrow> writes_copy_only st st2"
  by (simp add: writes_copy_only_def)

lemma set_item_writes: "writes_copy_only st (set_item key v st)"
  by (simp add: writes_copy_only_def set_item_def)

lemma found_writes: "writes_copy_only st (found st)"
  by (simp add: writes_copy_only_def found_def)

lemma add_category_writes: "writes_copy_only st (add_category c st)"
  by (simp add: writes_copy_only_def add_category_def)

lemma scan_field_writes:
  assumes "scan_field key val st = Inr st'"
  shows "writes_copy_only st st'"
proof (cases "inspected val")
  case None
  then have "scan_field key val st = Inr st" by (rule scan_field_skip)
  with assms show ?thesis by (simp add: writes_copy_only_refl)
next
  case (Some v)
  then have val: "val = JStr v" and ne: "strip v \<noteq> []"
    by (auto simp: inspected_def split: jvalue.splits if_splits)
  have w: "writes_copy_only st (set_item key r (found st))" for r
    using found_writes [of st] set_item_writes [of "found st" key r]
    by (rule writes_copy_only_trans)
  from assms scan_field_str [OF ne, of key st] val w show ?thesis
    by (auto simp: writes_copy_only_refl add_category_writes split: option.splits)
qed

lemma scan_fields_writes:
  "scan_fields items st = Inr st' \<Longrightarrow> writes_copy_only st st'"
proof (induction items arbitrary: st)
  case Nil
  then show ?case by (simp add: writes_copy_only_refl)
next
  case (Cons item items)
  obtain key val where item: "item = (key, val)" by (cases item)
  from Cons.prems item obtain st1 where st1: "scan_field key val st = Inr st1"
    "scan_fields items st1 = Inr st'"
    by (auto split: sum.splits)
  from scan_field_writes [OF st1(1)] Cons.IH [OF st1(2)] show ?case
    by (rule writes_copy_only_trans)
qed

lemma evaluate_writes: "writes_copy_only st (evaluate_combinatorial st)"
  by (simp add: writes_copy_only_def evaluate_frame)

lemma redact_field_writes: "writes_copy_only st (redact_field key st)"
  by (auto simp: redact_field_def writes_copy_only_refl set_item_writes
      split: option.splits jvalue.splits)

lemma fold_redact_writes: "writes_copy_only st (fold redact_field ks st)"
proof (induction ks arbitrary: st)
  case Nil
  then show ?case by (simp add: writes_copy_only_refl)
next
  case (Cons k ks)
  from redact_field_writes [of st k] Cons [of "redact_field k st"] show ?case
    by (simp add: writes_copy_only_trans)
qed

lemma call_result:
  obtains st1 where "scan_fields (objs r) (enter objs n r) = Inr st1"
    and "call objs n r = Inr (redact_fields (evaluate_combinatorial st1))"
proof -
  have items: "objects (enter objs n r) (data (enter objs n r)) = objs r"
    by (simp add: enter_def)
  have "fst ` set (objs r) \<subseteq> fst ` set (the_copy (enter objs n r))"
    by (simp add: enter_def)
  from scan_fields_general [OF this] obtain st1
    where st1: "scan_fields (objs r) (enter objs n r) = Inr st1" by blast
  then have "call objs n r = Inr (redact_fields (evaluate_combinatorial st1))"
    unfolding call_def items by simp
  with st1 show thesis by (rule that)
qed

lemma call_frame:
  "\<exists>st. call objs n r = Inr st \<and> redacted_data st = n \<and> data st = r
     \<and> (\<forall>a. a \<noteq> n \<longrightarrow> objects st a = objs a)"
proof -
  obtain st1 where st1: "scan_fields (objs r) (enter objs n r) = Inr st1"
    and c: "call objs n r = Inr (redact_fields (evaluate_combinatorial st1))"
    by (rule call_result)
  let ?st = "redact_fields (evaluate_combinatorial st1)"
  have "writes_copy_only (enter objs n r) st1" using st1 by (rule scan_fields_writes)
  moreover have "writes_copy_only st1 (evaluate_combinatorial st1)" by (rule evaluate_writes)
  moreover have "writes_copy_only (evaluate_combinatorial st1) ?st"
    unfolding redact_fields_def by (rule fold_redact_writes)
  ultimately have "writes_copy_only (enter objs n r) ?st"
    by (blast intro: writes_copy_only_trans)
  then have "redacted_data ?st = n \<and> data ?st = r \<and> (\<forall>a. a \<noteq> n \<longrightarrow> objects ?st a = objs a)"
    by (simp add: writes_copy_only_def enter_def)
  with c show ?thesis by blast
qed

lemma state_eqI:
  fixes s t :: state
  assumes "writes_copy_only u s" and "writes_copy_only u t" and "the_copy s = the_copy t"
    and "is_pii_found s = is_pii_found t" and "combinatorial_keys s = combinatorial_keys t"
    and "pii_fields_to_redact s = pii_fields_to_redact t"
  shows "s = t"
proof (rule state.equality)
  show "objects s = objects t"
  proof
    fix a
    show "objects s a = objects t a"
    proof (cases "a = redacted_data u")
      case True
      with assms(1,2,3) show ?thesis by (simp add: writes_copy_only_def)
    next
      case False
      with assms(1,2) show ?thesis by (simp add: writes_copy_only_def)
    qed
  qed
qed (use assms in \<open>simp_all add: writes_copy_only_def\<close>)

lemma fold_redact_other:
  shows "is_pii_found (fold redact_field ks st) = is_pii_found st"
    and "combinatorial_keys (fold redact_field ks st) = combinatorial_keys st"
    and "pii_fields_to_redact (fold redact_field ks st) = pii_fields_to_redact st"
  by (induction ks arbitrary: st) (simp_all add: redact_field_frame)

lemma fold_redact_order:
  assumes "distinct (map fst (the_copy st))" and "distinct ks" and "distinct ks'"
    and "set ks = set ks'"
  shows "fold redact_field ks st = fold redact_field ks' st"
proof (rule state_eqI [of st])
  show "the_copy (fold redact_field ks st) = the_copy (fold redact_field ks' st)"
    unfolding fold_redact_values [OF assms(1,2)] fold_redact_values [OF assms(1,3)] assms(4) ..
qed (simp_all add: fold_redact_writes fold_redact_other)

lemma detected_set: "set d = set d' \<Longrightarrow> detected d = detected d'"
  by (simp add: detected_eq)

lemma process_record_same_mapping:
  assumes "distinct (map fst d)" and "distinct (map fst d')" and "map_of d = map_of d'"
  shows "\<exists>rd rd' pii. process_record d = Inr (rd, pii) \<and> process_record d' = Inr (rd', pii)
     \<and> map_of rd = map_of rd'"
proof -
  have s: "set d = set d'" using assms by (simp add: map_of_inject_set)
  have dd: "detected d = detected d'" using s by (rule detected_set)
  from process_record_lookup [OF assms(1)] obtain rd where rd:
    "process_record d =
            Inr (rd, (\<exists>(k, val)\<in>set d. standalone_match k val) \<or> 2 \<le> card (detected d))"
    "\<forall>k. map_of rd k =
           map_option (\<lambda>val. if 2 \<le> card (detected d) \<and> k \<in> set (marked_fields (detected d))
               then step3_value k (step1_value k val) else step1_value k val) (map_of d k)"
    by (elim exE conjE)
  from process_record_lookup [OF assms(2)] obtain rd' where rd':
    "process_record d' =
            Inr (rd', (\<exists>(k, val)\<in>set d'. standalone_match k val) \<or> 2 \<le> card (detected d'))"
    "\<forall>k. map_of rd' k =
           map_option (\<lambda>val. if 2 \<le> card (detected d') \<and> k \<in> set (marked_fields (detected d'))
               then step3_value k (step1_value k val) else step1_value k val) (map_of d' k)"
    by (elim exE conjE)
  have "map_of rd = map_of rd'"
  proof
    fix k
    show "map_of rd k = map_of rd' k"
      unfolding rd(2) [rule_format] rd'(2) [rule_format] dd assms(3) ..
  qed
  then show ?thesis using rd(1) rd'(1) unfolding s dd by blast
qed

lemma escalated_lookup:
  assumes "distinct (map fst d)" and "2 \<le> card (detected d)"
  obtains rd where "process_record d = Inr (rd, True)"
    and "\<forall>k. k \<in> set (marked_fields (detected d)) \<longrightarrow>
           map_of rd k = map_option (step3_value k) (map_of d k)"
    and "\<forall>k. k \<notin> set (marked_fields (detected d)) \<longrightarrow>
           map_of rd k = map_option (step1_value k) (map_of d k)"
proof -
  let ?f = "\<lambda>k val. if 2 \<le> card (detected d) \<and> k \<in> set (marked_fields (detected d))
               then step3_value k (step1_value k val) else step1_value k val"
  let ?rd = "map (\<lambda>(k, val). (k, ?f k val)) d"
  have l: "map_of ?rd k = map_option (?f k) (map_of d k)" for k by (rule map_of_keyed_map)
  have "the_copy (redact_fields (evaluate_combinatorial (scanned d))) = ?rd"
    using assms(1) by (rule final_values)
  then have p: "process_record d = Inr (?rd, True)"
    unfolding process_record_eq using assms(2) by simp
  have m: "map_of ?rd k = map_option (step3_value k) (map_of d k)"
    if "k \<in> set (marked_fields (detected d))" for k
  proof -
    have "k \<in> {''name'', ''email'', ''address'', ''ip_address'', ''device_id''}"
      using that by (rule subsetD [OF marked_fields_subset])
    then have "step1_value k val = val" for val by (rule step1_value_other)
    then show ?thesis unfolding l using that assms(2) by simp
  qed
  have n: "map_of ?rd k = map_option (step1_value k) (map_of d k)"
    if "k \<notin> set (marked_fields (detected d))" for k
    unfolding l using that by simp
  from m n have "\<forall>k. k \<in> set (marked_fields (detected d)) \<longrightarrow>
           map_of ?rd k = map_option (step3_value k) (map_of d k)"
    and "\<forall>k. k \<notin> set (marked_fields (detected d)) \<longrightarrow>
           map_of ?rd k = map_option (step1_value k) (map_of d k)"
    by blast+
  with p show thesis by (rule that)
qed

lemma step3_device:
  assumes "k \<in> {''ip_address'', ''device_id''}"
  shows "map_option (step3_value k) m =
     (case m of Some (JStr v) \<Rightarrow> Some (JStr ''[REDACTED_IDENTIFIER]'') | other \<Rightarrow> other)"
proof -
  from assms have "k \<noteq> ''name''" and "k \<noteq> ''email''" and "k \<noteq> ''address''" by auto
  then show ?thesis by (simp add: step3_value_def split: option.splits jvalue.splits)
qed

lemma device_marked:
  assumes "''device_context'' \<in> ck" and "k \<in> {''ip_address'', ''device_id''}"
  shows "k \<in> set (marked_fields ck)"
  using assms by (auto simp: marked_fields_def)

lemma category_marked:
  assumes "c \<in> ck" and "c \<in> {''name'', ''email'', ''address''}"
  shows "c \<in> set (marked_fields ck)"
  using assms by (auto simp: marked_fields_def)

section \<open>The redaction functions on their own outputs\<close>

lemma phone_output_no_match: "\<not> search PHONE_REGEX (redact_phone v)"
proof
  let ?o = "redact_phone v"
  assume "search PHONE_REGEX ?o"
  from phone_shape [OF this] obtain i
    where i: "i + 10 \<le> length ?o" "\<forall>k<10. is_digit (?o ! (i + k))" by blast
  have len: "length ?o = min (length v) 2 + 6 + min (length v) 2"
    by (auto simp: redact_phone_def last_n_def)
  with i(1) have i0: "i = 0" and l2: "length (take 2 v) = 2" by auto
  have "?o ! 2 = CHR ''X''"
    unfolding redact_phone_def using l2 by (simp add: nth_append)
  moreover have "is_digit (?o ! 2)"
  proof -
    from i(2) have "\<forall>k<10. is_digit (?o ! k)" unfolding i0 by simp
    then show ?thesis by simp
  qed
  ultimately show False using X_not_digit by simp
qed

lemma aadhar_output_no_match: "\<not> search AADHAR_REGEX (redact_aadhar v)"
proof
  let ?o = "redact_aadhar v"
  assume "search AADHAR_REGEX ?o"
  from aadhar_shape [OF this] obtain i
    where i: "i + 12 \<le> length ?o" "is_digit (?o ! i)" by blast
  have "length ?o \<le> 12" by (simp add: redact_aadhar_def last_n_def)
  with i(1) have "i = 0" by simp
  then have "?o ! i = CHR ''X''" by (simp add: redact_aadhar_def)
  with i(2) show False using X_not_digit by simp
qed

lemma passport_output_no_match:
  assumes "redact_passport v = Inr r"
  shows "\<not> search PASSPORT_REGEX r"
proof
  assume "search PASSPORT_REGEX r"
  from passport_shape [OF this] obtain i
    where i: "i + 8 \<le> length r" "digit19 (r ! (i + 1))" by blast
  from assms obtain c where r: "r = c # ''XXXXXX'' @ [last v]"
    by (cases v) (auto simp: redact_passport_def)
  then have "length r = 8" by simp
  with i(1) have "i = 0" by simp
  then have "r ! (i + 1) = CHR ''X''" using r by simp
  with i(2) show False by (simp add: digit19_def in_range_def)
qed

lemma upi_sentinel_no_match: "\<not> search UPI_REGEX ''[REDACTED_UPI]''"
  using upi_shape [of "''[REDACTED_UPI]''"] by auto

lemma split_ws_good:
  assumes "\<forall>c\<in>set cur. \<not> is_space c" and "t \<in> set (split_ws cur s)"
  shows "t \<noteq> [] \<and> (\<forall>c\<in>set t. \<not> is_space c)"
  using assms
proof (induction s arbitrary: cur)
  case Nil
  then show ?case by (auto split: if_splits)
next
  case (Cons a s)
  show ?case
  proof (cases "is_space a")
    case True
    with Cons.prems(2) have "t = cur \<and> cur \<noteq> [] \<or> t \<in> set (split_ws [] s)"
      by (simp split: if_splits)
    then show ?thesis
    proof
      assume "t = cur \<and> cur \<noteq> []"
      with Cons.prems(1) show ?thesis by simp
    next
      assume "t \<in> set (split_ws [] s)"
      with Cons.IH [of "[]"] show ?thesis by simp
    qed
  next
    case False
    have g: "\<forall>c\<in>set (cur @ [a]). \<not> is_space c" using Cons.prems(1) False by simp
    have "t \<in> set (split_ws (cur @ [a]) s)" using Cons.prems(2) False by simp
    with g show ?thesis by (rule Cons.IH)
  qed
qed

lemma split_ws_token:
  "\<forall>c\<in>set t. \<not> is_space c \<Longrightarrow> split_ws cur (t @ rest) = split_ws (cur @ t) rest"
  by (induction t arbitrary: cur) simp_all

lemma space_is_space: "is_space CHR '' ''"
  by (simp add: is_space_def code_in_def)

lemma split_ws_join:
  "\<forall>t\<in>set ts. t \<noteq> [] \<and> (\<forall>c\<in>set t. \<not> is_space c) \<Longrightarrow> split_ws [] (join ts) = ts"
proof (induction ts rule: join.induct)
  case 1
  then show ?case by simp
next
  case (2 p)
  then have "split_ws [] (p @ []) = split_ws ([] @ p) []" by (intro split_ws_token) simp
  with 2 show ?case by simp
next
  case (3 p q ps)
  have "split_ws [] (p @ CHR '' '' # join (q # ps)) = split_ws ([] @ p) (CHR '' '' # join (q # ps))"
    using 3(2) by (intro split_ws_token) simp
  also have "\<dots> = p # split_ws [] (join (q # ps))" using 3(2) space_is_space by simp
  also have "split_ws [] (join (q # ps)) = q # ps" using 3 by simp
  finally show ?case by simp
qed

lemma X_not_space: "\<not> is_space CHR ''X''"
  by (simp add: is_space_def code_in_def)

lemma redact_part_good:
  assumes "p \<noteq> []" and "\<forall>c\<in>set p. \<not> is_space c"
  shows "redact_part p \<noteq> [] \<and> (\<forall>c\<in>set (redact_part p). \<not> is_space c)"
  using assms X_not_space by (cases p) (auto simp: redact_part_def)

lemma redact_part_idem: "redact_part (redact_part p) = redact_part p"
  by (cases p) (simp_all add: redact_part_def)

lemma redact_name_idem: "redact_name (redact_name name) = redact_name name"
proof -
  let ?ts = "filter (\<lambda>p. 0 < length p) (split_words name)"
  let ?rs = "map redact_part ?ts"
  have good: "\<forall>t\<in>set ?ts. t \<noteq> [] \<and> (\<forall>c\<in>set t. \<not> is_space c)"
    using split_ws_good [of "[]" _ name] by (auto simp: split_words_def)
  then have rgood: "\<forall>t\<in>set ?rs. t \<noteq> [] \<and> (\<forall>c\<in>set t. \<not> is_space c)"
    using redact_part_good by auto
  then have sp: "split_words (join ?rs) = ?rs"
    unfolding split_words_def by (rule split_ws_join)
  have "filter (\<lambda>p. 0 < length p) ?rs = ?rs" using rgood by (intro filter_True) auto
  then have "redact_name (join ?rs) = join (map redact_part ?rs)"
    unfolding redact_name_def [of "join ?rs"] sp by simp
  also have "map redact_part ?rs = ?rs" by (simp add: redact_part_idem)
  finally show ?thesis unfolding redact_name_def [of name] .
qed

lemma split_once_none:
  assumes "sep \<notin> set s"
  shows "split_once sep s = [s]"
proof -
  have d: "dropWhile (\<lambda>c. c \<noteq> sep) s = []"
    using assms by (auto simp: dropWhile_eq_Nil_conv)
  show ?thesis unfolding split_once_def d by simp
qed

lemma split_once_some:
  assumes "sep \<notin> set l"
  shows "split_once sep (l @ sep # dm) = [l, dm]"
proof -
  have p: "\<And>x. x \<in> set l \<Longrightarrow> x \<noteq> sep" using assms by auto
  have "dropWhile (\<lambda>c. c \<noteq> sep) (l @ sep # dm) = dropWhile (\<lambda>c. c \<noteq> sep) (sep # dm)"
    using p by (rule dropWhile_append2)
  then have d: "dropWhile (\<lambda>c. c \<noteq> sep) (l @ sep # dm) = sep # dm" by simp
  have "takeWhile (\<lambda>c. c \<noteq> sep) (l @ sep # dm) = l @ takeWhile (\<lambda>c. c \<noteq> sep) (sep # dm)"
    using p by (rule takeWhile_append2)
  then have t: "takeWhile (\<lambda>c. c \<noteq> sep) (l @ sep # dm) = l" by simp
  show ?thesis unfolding split_once_def d t by simp
qed

lemma redact_email_idem: "redact_email (redact_email email) = redact_email email"
proof (cases "CHR ''@'' \<in> set email")
  case False
  then have "redact_email email = ''[REDACTED_EMAIL]''"
    by (simp add: redact_email_def split_once_none)
  moreover have "redact_email ''[REDACTED_EMAIL]'' = ''[REDACTED_EMAIL]''"
    by (simp add: redact_email_def split_once_none)
  ultimately show ?thesis by simp
next
  case True
  then obtain l dm where e: "email = l @ CHR ''@'' # dm" "CHR ''@'' \<notin> set l"
    by (meson split_list_first)
  define mask_local where "mask_local = (\<lambda>l. if 2 < length l then [hd l] @ ''XXX'' @ [last l]
           else replicate (length l) CHR ''X'')"
  have r1: "redact_email (l' @ CHR ''@'' # dm) = mask_local l' @ CHR ''@'' # dm"
    if "CHR ''@'' \<notin> set l'" for l'
    using that by (simp add: redact_email_def split_once_some mask_local_def)
  have notin: "CHR ''@'' \<notin> set (mask_local l)"
  proof (cases "2 < length l")
    case True
    then have "l \<noteq> []" by auto
    then have "hd l \<in> set l" "last l \<in> set l" by simp_all
    with e(2) True show ?thesis by (auto simp: mask_local_def)
  next
    case False
    then show ?thesis by (auto simp: mask_local_def)
  qed
  have idem: "mask_local (mask_local l) = mask_local l"
    by (simp add: mask_local_def)
  show ?thesis unfolding e(1) r1 [OF e(2)] r1 [OF notin] idem ..
qed

lemma step3_value_idem: "step3_value k (step3_value k val) = step3_value k val"
  by (cases val) (simp_all add: step3_value_def redact_name_idem redact_email_idem)

section \<open>The rule table\<close>









lemma run_any_order:
  assumes "distinct (map fst d)" and "distinct ks"
    and "set ks = set (pii_fields_to_redact (evaluate_combinatorial (scanned d)))"
  shows "run d = Inr (fold redact_field ks (evaluate_combinatorial (scanned d)))"
proof -
  let ?ev = "evaluate_combinatorial (scanned d)"
  have dk: "distinct (map fst (the_copy ?ev))"
    using assms(1) by (simp add: evaluate_fields scanned_general)
  have "pii_fields_to_redact ?ev =
      (if 2 \<le> card (detected d) then marked_fields (detected d) else [])"
    by (simp add: evaluate_fields scanned_general detected_def)
  then have dp: "distinct (pii_fields_to_redact ?ev)" by (simp add: distinct_marked_fields)
  have "fold redact_field ks ?ev = fold redact_field (pii_fields_to_redact ?ev) ?ev"
    using dk assms(2) dp assms(3) by (rule fold_redact_order)
  then show ?thesis unfolding run_eq redact_fields_def by simp
qed

section \<open>The claims of the specification\<close>

text \<open>
  Claim C1, amended. When two or more categories are detected the flag is true, the name, email
  and address fields of the detected categories are redacted by their transforms, and with
  \<open>device_context\<close> detected each of \<open>ip_address\<close> and \<open>device_id\<close> that holds a string is
  replaced by the identifier sentinel, while one that holds another value keeps it and one that
  is absent stays absent.
\<close>

theorem escalation_redacts:
  assumes "distinct (map fst d)" and "2 \<le> card (detected d)"
  shows "\<exists>rd. process_record d = Inr (rd, True)
     \<and> (''name'' \<in> detected d \<longrightarrow>
          (\<exists>v. map_of d ''name'' = Some (JStr v)
             \<and> map_of rd ''name'' = Some (JStr (redact_name v))))
     \<and> (''email'' \<in> detected d \<longrightarrow>
          (\<exists>v. map_of d ''email'' = Some (JStr v)
             \<and> map_of rd ''email'' = Some (JStr (redact_email v))))
     \<and> (''address'' \<in> detected d \<longrightarrow>
          (\<exists>v. map_of d ''address'' = Some (JStr v)
             \<and> map_of rd ''address'' = Some (JStr ''[REDACTED_ADDRESS]'')))
     \<and> (''device_context'' \<in> detected d \<longrightarrow>
          (\<forall>k\<in>{''ip_address'', ''device_id''}.
             map_of rd k =
               (case map_of d k of
                  Some (JStr v) \<Rightarrow> Some (JStr ''[REDACTED_IDENTIFIER]'')
                | other \<Rightarrow> other)))"
proof -
  from assms obtain rd where rd: "process_record d = Inr (rd, True)"
    "\<forall>k. k \<in> set (marked_fields (detected d)) \<longrightarrow>
           map_of rd k = map_option (step3_value k) (map_of d k)"
    "\<forall>k. k \<notin> set (marked_fields (detected d)) \<longrightarrow>
           map_of rd k = map_option (step1_value k) (map_of d k)"
    by (rule escalated_lookup)
  have comb: "\<exists>v. map_of d c = Some (JStr v) \<and> map_of rd c = Some (step3_value c (JStr v))"
    if c: "c \<in> detected d" "c \<in> {''name'', ''email'', ''address''}" for c
  proof -
    from detected_field [OF assms(1) c] obtain v where v: "map_of d c = Some (JStr v)"
      by blast
    have "c \<in> set (marked_fields (detected d))" using c by (rule category_marked)
    then have "map_of rd c = map_option (step3_value c) (map_of d c)" by (rule rd(2) [rule_format])
    with v show ?thesis by simp
  qed
  have name: "\<exists>v. map_of d ''name'' = Some (JStr v)
             \<and> map_of rd ''name'' = Some (JStr (redact_name v))" if "''name'' \<in> detected d"
    using comb [OF that] by (simp add: step3_value_def)
  have email: "\<exists>v. map_of d ''email'' = Some (JStr v)
             \<and> map_of rd ''email'' = Some (JStr (redact_email v))" if "''email'' \<in> detected d"
    using comb [OF that] by (simp add: step3_value_def)
  have address: "\<exists>v. map_of d ''address'' = Some (JStr v)
             \<and> map_of rd ''address'' = Some (JStr ''[REDACTED_ADDRESS]'')"
    if "''address'' \<in> detected d"
    using comb [OF that] by (simp add: step3_value_def)
  have device: "map_of rd k =
               (case map_of d k of
                  Some (JStr v) \<Rightarrow> Some (JStr ''[REDACTED_IDENTIFIER]'')
                | other \<Rightarrow> other)"
    if "''device_context'' \<in> detected d" and k: "k \<in> {''ip_address'', ''device_id''}" for k
  proof -
    have "k \<in> set (marked_fields (detected d))" using that by (rule device_marked)
    then have "map_of rd k = map_option (step3_value k) (map_of d k)" by (rule rd(2) [rule_format])
    then show ?thesis unfolding step3_device [OF k] .
  qed
  show ?thesis using rd(1) name email address device by blast
qed

theorem escalation_redacts_witness:
  "\<exists>rd. process_record
           [(''name'', JStr ''John Doe''), (''email'', JStr ''john@example.com''),
            (''address'', JStr ''123 Main Street, City''), (''device_id'', JNum 7)]
         = Inr (rd, True)
     \<and> map_of rd ''name'' = Some (JStr ''JXXX DXX'')
     \<and> map_of rd ''email'' = Some (JStr ''jXXXn@example.com'')
     \<and> map_of rd ''address'' = Some (JStr ''[REDACTED_ADDRESS]'')"
proof -
  let ?d = "[(''name'', JStr ''John Doe''), (''email'', JStr ''john@example.com''),
            (''address'', JStr ''123 Main Street, City''), (''device_id'', JNum 7)]"
  have c1: "category_of ''name'' (JStr ''John Doe'') = Some ''name''" by code_simp
  have c2: "category_of ''email'' (JStr ''john@example.com'') = Some ''email''" by code_simp
  have c3: "category_of ''address'' (JStr ''123 Main Street, City'') = Some ''address''"
    by code_simp
  have c4: "category_of ''device_id'' (JNum 7) = None" by code_simp
  have d: "detected ?d = {''name'', ''email'', ''address''}"
    unfolding detected_list by (simp add: List.map_filter_simps c1 c2 c3 c4)
  have d1: "distinct (map fst ?d)" by simp
  have d2: "2 \<le> card (detected ?d)" unfolding d by simp
  have n: "redact_name ''John Doe'' = ''JXXX DXX''" by code_simp
  have e: "redact_email ''john@example.com'' = ''jXXXn@example.com''" by code_simp
  show ?thesis
    using escalation_redacts [OF d1 d2] n e unfolding d by simp
qed

text \<open>
  Claim C1 as stated fails: here \<open>device_context\<close> is detected with a second category and
  \<open>device_id\<close> is present, yet its value, a number, is returned as it was.
\<close>

theorem escalation_redacts_counterexample:
  "2 \<le> card (detected [(''name'', JStr ''A B''), (''ip_address'', JStr ''1.2.3.4''),
                        (''device_id'', JNum 42)])
   \<and> ''device_context'' \<in> detected [(''name'', JStr ''A B''),
                                    (''ip_address'', JStr ''1.2.3.4''), (''device_id'', JNum 42)]
   \<and> map_of [(''name'', JStr ''A B''), (''ip_address'', JStr ''1.2.3.4''),
             (''device_id'', JNum 42)] ''device_id'' = Some (JNum 42)
   \<and> process_record [(''name'', JStr ''A B''), (''ip_address'', JStr ''1.2.3.4''),
                     (''device_id'', JNum 42)]
      = Inr ([(''name'', JStr ''A B''), (''ip_address'', JStr ''[REDACTED_IDENTIFIER]''),
              (''device_id'', JNum 42)], True)"
proof -
  let ?d = "[(''name'', JStr ''A B''), (''ip_address'', JStr ''1.2.3.4''),
             (''device_id'', JNum 42)]"
  have c1: "category_of ''name'' (JStr ''A B'') = Some ''name''" by code_simp
  have c2: "category_of ''ip_address'' (JStr ''1.2.3.4'') = Some ''device_context''"
    by code_simp
  have c3: "category_of ''device_id'' (JNum 42) = None" by code_simp
  have "detected ?d = {''name'', ''device_context''}"
    unfolding detected_list by (simp add: List.map_filter_simps c1 c2 c3)
  moreover have "process_record ?d
      = Inr ([(''name'', JStr ''A B''), (''ip_address'', JStr ''[REDACTED_IDENTIFIER]''),
              (''device_id'', JNum 42)], True)"
    by code_simp
  ultimately show ?thesis by simp
qed

text \<open>
  Claim C2. With exactly one category detected and no standalone rule matching any field,
  the record comes back unchanged and the flag is false.
\<close>

theorem single_category_unchanged:
  assumes "distinct (map fst d)" and "card (detected d) = 1"
    and "\<forall>(k, val)\<in>set d. \<not> standalone_match k val"
  shows "process_record d = Inr (d, False)"
proof -
  have no: "\<not> 2 \<le> card (detected d)" using assms(2) by simp
  have "map (\<lambda>(k, val). (k, step1_value k val)) d = d"
    using assms(3) by (intro map_idI) (auto simp: step1_value_no_match)
  then show ?thesis
    unfolding process_record_eq final_values [OF assms(1)]
    using no assms(3) by auto
qed

theorem single_category_unchanged_witness:
  "process_record [(''ip_address'', JStr ''192.168.1.100''), (''device_id'', JStr ''DEVICE_001'')]
     = Inr ([(''ip_address'', JStr ''192.168.1.100''), (''device_id'', JStr ''DEVICE_001'')],
            False)"
proof -
  let ?d = "[(''ip_address'', JStr ''192.168.1.100''), (''device_id'', JStr ''DEVICE_001'')]"
  have c1: "category_of ''ip_address'' (JStr ''192.168.1.100'') = Some ''device_context''"
    by code_simp
  have c2: "category_of ''device_id'' (JStr ''DEVICE_001'') = Some ''device_context''"
    by code_simp
  have s: "\<not> standalone_match k val" if "k \<in> {''ip_address'', ''device_id''}" for k val
    using that by (auto dest: standalone_match_keys)
  have d1: "distinct (map fst ?d)" by simp
  have d2: "card (detected ?d) = 1"
    unfolding detected_list by (simp add: List.map_filter_simps c1 c2)
  have d3: "\<forall>(k, val)\<in>set ?d. \<not> standalone_match k val" using s by simp
  show ?thesis using single_category_unchanged [OF d1 d2 d3] .
qed

text \<open>
  Claim C4, amended. The outputs of the phone, aadhar and passport transforms and the UPI
  sentinel never match the pattern of their own rule. The outputs of the name, email and
  address transforms can match their rule again, and a device field matches by its name alone;
  these transforms give their own output back, so redacting a redacted value again changes
  nothing.
\<close>

theorem redaction_outputs:
  "\<not> search PHONE_REGEX (redact_phone v)
   \<and> \<not> search AADHAR_REGEX (redact_aadhar v)
   \<and> (\<forall>r. redact_passport v = Inr r \<longrightarrow> \<not> search PASSPORT_REGEX r)
   \<and> \<not> search UPI_REGEX ''[REDACTED_UPI]''
   \<and> redact_name (redact_name v) = redact_name v
   \<and> redact_email (redact_email v) = redact_email v
   \<and> step3_value k (step3_value k val) = step3_value k val"
  using phone_output_no_match aadhar_output_no_match passport_output_no_match
    upi_sentinel_no_match redact_name_idem redact_email_idem step3_value_idem
  by blast

theorem redaction_outputs_witness:
  "redact_passport ''A1234567'' = Inr ''AXXXXXX7''
   \<and> \<not> search PASSPORT_REGEX ''AXXXXXX7''
   \<and> \<not> search PHONE_REGEX ''98XXXXXX10''
   \<and> redact_name ''JXXX DXX'' = ''JXXX DXX''"
proof -
  have p: "redact_passport ''A1234567'' = Inr ''AXXXXXX7''" by code_simp
  have q: "redact_phone ''9876543210'' = ''98XXXXXX10''" by code_simp
  have n: "redact_name ''John Doe'' = ''JXXX DXX''" by code_simp
  show ?thesis
    using redaction_outputs [of "''A1234567''"] redaction_outputs [of "''9876543210''"]
      redaction_outputs [of "''John Doe''"] p q n
    by simp
qed

text \<open>
  Claim C4 as stated fails for the name, email and address rules: each of these outputs has
  the shape its own rule looks for.
\<close>

theorem redaction_outputs_counterexample:
  "shape Name (redact_name ''John Doe'')
   \<and> shape Email (redact_email ''john@example.com'')
   \<and> shape Address ''[REDACTED_ADDRESS]''"
proof -
  have "redact_name ''John Doe'' = ''JXXX DXX''" by code_simp
  moreover have "shape Name ''JXXX DXX''" by code_simp
  moreover have "redact_email ''john@example.com'' = ''jXXXn@example.com''" by code_simp
  moreover have "shape Email ''jXXXn@example.com''" by code_simp
  moreover have "shape Address ''[REDACTED_ADDRESS]''" by code_simp
  ultimately show ?thesis by simp
qed

text \<open>
  Claim C3. For every input record the evaluator returns a record with exactly the keys of the
  input, in the same order: no key is added or removed.
\<close>

theorem process_record_same_keys:
  "\<exists>rd pii. process_record d = Inr (rd, pii) \<and> fst ` set rd = fst ` set d
     \<and> map fst rd = map fst d"
proof -
  let ?rd = "the_copy (redact_fields (evaluate_combinatorial (scanned d)))"
  have "map fst ?rd = map fst d" by (rule final_keys)
  moreover from this have "fst ` set ?rd = fst ` set d" by (metis list.set_map)
  ultimately show ?thesis using process_record_eq [of d] by blast
qed

text \<open>
  Claim C5, amended. A phone or contact field whose value holds a ten-digit token is replaced
  by the first two characters of the whole value, six X and the last two characters of the
  whole value, and the flag is true; when the value is ten characters long these are its first
  two and last two digits.
\<close>

theorem phone_redaction:
  assumes "distinct (map fst d)" and "k \<in> {''phone'', ''contact''}"
    and "map_of d k = Some (JStr v)" and "search PHONE_REGEX v"
  shows "\<exists>rd. process_record d = Inr (rd, True)
     \<and> map_of rd k = Some (JStr (take 2 v @ ''XXXXXX'' @ last_n 2 v))
     \<and> (length v = 10 \<longrightarrow> keeps_outer_digits v (take 2 v @ ''XXXXXX'' @ last_n 2 v))"
proof -
  from standalone_final [OF assms(1,3) phone_not_blank [OF assms(4)]
      standalone_phone [OF assms(2,4)]]
  obtain rd where rd: "process_record d = Inr (rd, True)"
    "map_of rd k = Some (JStr (redact_phone v))"
    by blast
  have "keeps_outer_digits v (take 2 v @ ''XXXXXX'' @ last_n 2 v)" if len: "length v = 10"
  proof -
    from phone_ten_digits [OF assms(4) len] have all: "\<forall>c\<in>set v. is_digit c" .
    then have fv: "filter is_digit v = v" by simp
    have "\<forall>c\<in>set (take 2 v). is_digit c" using all by (meson in_set_takeD)
    then have f1: "filter is_digit (take 2 v) = take 2 v" by simp
    have "\<forall>c\<in>set (last_n 2 v). is_digit c"
      using all unfolding last_n_def by (meson in_set_dropD)
    then have f2: "filter is_digit (last_n 2 v) = last_n 2 v" by simp
    show ?thesis unfolding keeps_outer_digits_def fv using f1 f2 X_not_digit by simp
  qed
  then show ?thesis using rd by (auto simp: redact_phone_def)
qed

theorem phone_redaction_witness:
  "\<exists>rd. process_record [(''phone'', JStr ''9876543210'')] = Inr (rd, True)
     \<and> map_of rd ''phone'' = Some (JStr ''98XXXXXX10'')
     \<and> keeps_outer_digits ''9876543210'' ''98XXXXXX10''"
proof -
  let ?d = "[(''phone'', JStr ''9876543210'')]"
  have d1: "distinct (map fst ?d)" by simp
  have d2: "''phone'' \<in> {''phone'', ''contact''}" by simp
  have d3: "map_of ?d ''phone'' = Some (JStr ''9876543210'')" by simp
  have d4: "search PHONE_REGEX ''9876543210''" by code_simp
  show ?thesis using phone_redaction [OF d1 d2 d3 d4] by (simp add: last_n_def)
qed

text \<open>
  Claim C5 as stated fails when the token is only a part of the value: the transform works on
  the whole value, and the first two digits of the number are lost.
\<close>

theorem phone_redaction_counterexample:
  "search PHONE_REGEX ''Ph 9876543210''
   \<and> process_record [(''phone'', JStr ''Ph 9876543210'')]
       = Inr ([(''phone'', JStr ''PhXXXXXX10'')], True)
   \<and> \<not> keeps_outer_digits ''Ph 9876543210'' ''PhXXXXXX10''"
  by code_simp

text \<open>
  Claim C6. The branch reads \<open>value.split('@')[1]\<close>, the text between the first \<open>@\<close> and
  the next, where the comment above it and the claim speak of the domain part. On the value
  below, which holds an email shape and whose text after the first \<open>@\<close> holds a dot, the field
  is redacted as a UPI handle all the same.
\<close>

theorem upi_middle_segment_redacted:
  "search EMAIL_REGEX ''a@b@c.de''
   \<and> after_at ''a@b@c.de'' = ''b@c.de''
   \<and> \<not> upi_claimed ''a@b@c.de''
   \<and> process_record [(''upi_id'', JStr ''a@b@c.de'')]
       = Inr ([(''upi_id'', JStr ''[REDACTED_UPI]'')], True)"
proof -
  have "search EMAIL_REGEX ''a@b@c.de''" by code_simp
  moreover have "after_at ''a@b@c.de'' = ''b@c.de''" by code_simp
  moreover from this have "\<not> upi_claimed ''a@b@c.de''" by (simp add: upi_claimed_def)
  moreover have "process_record [(''upi_id'', JStr ''a@b@c.de'')]
       = Inr ([(''upi_id'', JStr ''[REDACTED_UPI]'')], True)"
    by code_simp
  ultimately show ?thesis by simp
qed

text \<open>
  Claim C7. On every record \<open>process_record\<close> returns a result and raises no error; a field
  whose value is not a string, or is a string of whitespace only, leaves the state of the scan
  as it was: no flag, no category and no redaction comes from it.
\<close>

theorem process_record_never_raises:
  "(\<exists>rd pii. process_record d = Inr (rd, pii))
   \<and> ((\<forall>v. val \<noteq> JStr v) \<or> (\<exists>v. val = JStr v \<and> (\<forall>c\<in>set v. is_space c))
        \<longrightarrow> scan_field key val st = Inr st)"
proof
  show "\<exists>rd pii. process_record d = Inr (rd, pii)" using process_record_eq [of d] by blast
  show "(\<forall>v. val \<noteq> JStr v) \<or> (\<exists>v. val = JStr v \<and> (\<forall>c\<in>set v. is_space c))
        \<longrightarrow> scan_field key val st = Inr st"
  proof
    assume "(\<forall>v. val \<noteq> JStr v) \<or> (\<exists>v. val = JStr v \<and> (\<forall>c\<in>set v. is_space c))"
    then have "inspected val = None"
      by (cases val) (auto simp: inspected_def strip_empty_iff)
    then show "scan_field key val st = Inr st" by (rule scan_field_skip)
  qed
qed

theorem process_record_never_raises_witness:
  "(\<exists>rd pii. process_record [(''age'', JNum 25), (''email'', JStr ''   '')] = Inr (rd, pii))
   \<and> scan_field ''email'' (JStr ''   '') (initial []) = Inr (initial [])
   \<and> scan_field ''ip_address'' (JStr [CHR 0xA0]) (initial []) = Inr (initial [])
   \<and> scan_field ''age'' (JNum 25) (initial []) = Inr (initial [])"
  using process_record_never_raises
          [of "[(''age'', JNum 25), (''email'', JStr ''   '')]" "JStr ''   ''" "''email''"
             "initial []"]
        process_record_never_raises [of "[]" "JStr [CHR 0xA0]" "''ip_address''" "initial []"]
        process_record_never_raises [of "[]" "JNum 25" "''age''" "initial []"]
  by (simp add: is_space_def code_in_def)



text \<open>
  Claim C9. A call with the argument at address \<open>r\<close> and \<open>n\<close> the first unused address
  returns, and leaves every object but the new one at \<open>n\<close> as it was: the argument, which lies
  below \<open>n\<close>, is unchanged, and all writes went to the copy. The result does not depend on
  the order in which the set \<open>pii_fields_to_redact\<close> is iterated, nor on the order of the
  items of the argument: two records that are equal as mappings give the same flag and
  results that are equal as mappings.
\<close>

theorem process_record_side_effect_free:
  "(\<exists>st. call objs n r = Inr st \<and> redacted_data st = n \<and> data st = r
        \<and> (\<forall>a. a \<noteq> n \<longrightarrow> objects st a = objs a) \<and> (r < n \<longrightarrow> objects st r = objs r))
   \<and> (distinct (map fst e) \<and> distinct ks
        \<and> set ks = set (pii_fields_to_redact (evaluate_combinatorial (scanned e)))
        \<longrightarrow> run e = Inr (fold redact_field ks (evaluate_combinatorial (scanned e))))
   \<and> (distinct (map fst d) \<and> distinct (map fst d') \<and> map_of d = map_of d'
        \<longrightarrow> (\<exists>rd rd' pii. process_record d = Inr (rd, pii) \<and> process_record d' = Inr (rd', pii)
               \<and> map_of rd = map_of rd'))"
proof (intro conjI impI)
  from call_frame [of objs n r]
  show "\<exists>st. call objs n r = Inr st \<and> redacted_data st = n \<and> data st = r
        \<and> (\<forall>a. a \<noteq> n \<longrightarrow> objects st a = objs a) \<and> (r < n \<longrightarrow> objects st r = objs r)"
    by auto
next
  assume "distinct (map fst e) \<and> distinct ks
        \<and> set ks = set (pii_fields_to_redact (evaluate_combinatorial (scanned e)))"
  then show "run e = Inr (fold redact_field ks (evaluate_combinatorial (scanned e)))"
    by (simp add: run_any_order)
next
  assume "distinct (map fst d) \<and> distinct (map fst d') \<and> map_of d = map_of d'"
  then show "\<exists>rd rd' pii. process_record d = Inr (rd, pii) \<and> process_record d' = Inr (rd', pii)
               \<and> map_of rd = map_of rd'"
    by (simp add: process_record_same_mapping)
qed

theorem process_record_side_effect_free_witness:
  "(\<exists>st. call ((\<lambda>_. [])(0 := [(''phone'', JStr ''9876543210'')])) 1 0 = Inr st
        \<and> redacted_data st = 1 \<and> data st = 0
        \<and> objects st 0 = [(''phone'', JStr ''9876543210'')])
   \<and> process_record [(''phone'', JStr ''9876543210'')]
        = Inr ([(''phone'', JStr ''98XXXXXX10'')], True)
   \<and> run [(''name'', JStr ''A B''), (''email'', JStr ''a@b.cd'')]
        = Inr (fold redact_field [''email'', ''name'']
                (evaluate_combinatorial
                  (scanned [(''name'', JStr ''A B''), (''email'', JStr ''a@b.cd'')])))
   \<and> (\<exists>rd rd' pii.
         process_record [(''name'', JStr ''A B''), (''device_id'', JStr ''D'')] = Inr (rd, pii)
       \<and> process_record [(''device_id'', JStr ''D''), (''name'', JStr ''A B'')] = Inr (rd', pii)
       \<and> map_of rd = map_of rd')"
proof -
  let ?p = "[(''phone'', JStr ''9876543210'')]"
  let ?e = "[(''name'', JStr ''A B''), (''email'', JStr ''a@b.cd'')]"
  let ?d = "[(''name'', JStr ''A B''), (''device_id'', JStr ''D'')]"
  let ?d' = "[(''device_id'', JStr ''D''), (''name'', JStr ''A B'')]"
  note t = process_record_side_effect_free
             [of "(\<lambda>_. [])(0 := ?p)" 1 0 ?e "[''email'', ''name'']" ?d ?d']
  have p: "process_record ?p = Inr ([(''phone'', JStr ''98XXXXXX10'')], True)" by code_simp
  have c1: "category_of ''name'' (JStr ''A B'') = Some ''name''" by code_simp
  have c2: "category_of ''email'' (JStr ''a@b.cd'') = Some ''email''" by code_simp
  have ck: "combinatorial_keys (scanned ?e) = {''name'', ''email''}"
    unfolding detected_def [symmetric] detected_list
    by (simp add: List.map_filter_simps c1 c2)
  have "pii_fields_to_redact (evaluate_combinatorial (scanned ?e)) = [''name'', ''email'']"
    by (simp add: evaluate_fields scanned_general(3) ck marked_fields_def)
  then have h2: "set [''email'', ''name'']
      = set (pii_fields_to_redact (evaluate_combinatorial (scanned ?e)))"
    by auto
  have h3: "map_of ?d = map_of ?d'" by (auto simp: fun_eq_iff)
  show ?thesis using t p h2 h3 by auto
qed

text \<open>
  Claim C10. When step 2 fires with \<open>device_context\<close> among the categories, each of the keys
  \<open>ip_address\<close> and \<open>device_id\<close> is treated alike: a string value, blank or not, becomes
  the identifier sentinel; a value that is not a string stays; an absent key stays absent.
\<close>

theorem device_fields_redacted:
  assumes "distinct (map fst d)"
    and "''device_context'' \<in> detected d" and "2 \<le> card (detected d)"
    and "k \<in> {''ip_address'', ''device_id''}"
  shows "\<exists>rd. process_record d = Inr (rd, True)
     \<and> map_of rd k =
         (case map_of d k of
            Some (JStr v) \<Rightarrow> Some (JStr ''[REDACTED_IDENTIFIER]'')
          | other \<Rightarrow> other)"
proof -
  from assms(1,3) obtain rd where rd: "process_record d = Inr (rd, True)"
    "\<forall>k. k \<in> set (marked_fields (detected d)) \<longrightarrow>
           map_of rd k = map_option (step3_value k) (map_of d k)"
    "\<forall>k. k \<notin> set (marked_fields (detected d)) \<longrightarrow>
           map_of rd k = map_option (step1_value k) (map_of d k)"
    by (rule escalated_lookup)
  have "k \<in> set (marked_fields (detected d))" using assms(2,4) by (rule device_marked)
  then have "map_of rd k = map_option (step3_value k) (map_of d k)" by (rule rd(2) [rule_format])
  then show ?thesis using rd(1) unfolding step3_device [OF assms(4)] by blast
qed

theorem device_fields_redacted_witness:
  "(\<exists>rd. process_record
            [(''name'', JStr ''John Doe''), (''ip_address'', JStr ''  ''),
             (''device_id'', JStr ''DEV1'')] = Inr (rd, True)
         \<and> map_of rd ''ip_address'' = Some (JStr ''[REDACTED_IDENTIFIER]''))
   \<and> (\<exists>rd. process_record
            [(''name'', JStr ''John Doe''), (''ip_address'', JNum 42),
             (''device_id'', JStr ''DEV1'')] = Inr (rd, True)
         \<and> map_of rd ''ip_address'' = Some (JNum 42))"
proof -
  let ?d = "[(''name'', JStr ''John Doe''), (''ip_address'', JStr ''  ''),
             (''device_id'', JStr ''DEV1'')]"
  let ?e = "[(''name'', JStr ''John Doe''), (''ip_address'', JNum 42),
             (''device_id'', JStr ''DEV1'')]"
  have c1: "category_of ''name'' (JStr ''John Doe'') = Some ''name''" by code_simp
  have c2: "category_of ''ip_address'' (JStr ''  '') = None" by code_simp
  have c3: "category_of ''device_id'' (JStr ''DEV1'') = Some ''device_context''" by code_simp
  have c4: "category_of ''ip_address'' (JNum 42) = None" by code_simp
  have d: "detected ?d = {''name'', ''device_context''}"
    unfolding detected_list by (simp add: List.map_filter_simps c1 c2 c3)
  have e: "detected ?e = {''name'', ''device_context''}"
    unfolding detected_list by (simp add: List.map_filter_simps c1 c4 c3)
  have d1: "distinct (map fst ?d)" and e1: "distinct (map fst ?e)" by simp_all
  have d2: "''device_context'' \<in> detected ?d" and d3: "2 \<le> card (detected ?d)"
    unfolding d by simp_all
  have e2: "''device_context'' \<in> detected ?e" and e3: "2 \<le> card (detected ?e)"
    unfolding e by simp_all
  show ?thesis
    using device_fields_redacted [OF d1 d2 d3, of "''ip_address''"]
          device_fields_redacted [OF e1 e2 e3, of "''ip_address''"]
    by simp
qed

end
